theory Spec2Isabelle
  imports Main
begin

section \<open>Data model of \<open>othello.py\<close>\<close>

text \<open>
  \<open>class Color(enum.Enum)\<close> has the two members \<open>BLACK\<close> and \<open>WHITE\<close>. A square of the
  board holds a \<open>Color\<close> or Python's \<open>None\<close> (an empty square), so a square is a
  \<open>Color option\<close>, and \<open>Board = List[List[Color]]\<close> is a list of rows.
\<close>

datatype Color = BLACK | WHITE

type_synonym cell = "Color option"
type_synonym Board = "cell list list"
type_synonym Coordinate = "int \<times> int"

definition directions :: "(int \<times> int) list" where
  "directions = [(-1,-1), (-1,0), (-1,1), (0,-1), (0,1), (1,-1), (1,0), (1,1)]"

definition SIZE :: int where
  "SIZE = 8"

text \<open>
  The exceptions that the functions below can raise: a subscript out of range, and
  \<open>next\<close> on an exhausted iterator. \<open>CoordinateParseError\<close> is caught inside
  \<open>play_game\<close> and is the \<open>Inl\<close> of \<open>parse_coordinate\<close>'s result.
\<close>

datatype py_error = IndexError | StopIteration

text \<open>
  Python subscripting \<open>xs[i]\<close> and \<open>xs[i] = v\<close>: a negative index counts from the end,
  anything else out of range raises \<open>IndexError\<close>.
\<close>

definition py_index :: "'a list \<Rightarrow> int \<Rightarrow> py_error + 'a" where
  "py_index xs i =
     (if 0 \<le> i \<and> i < int (length xs) then Inr (xs ! nat i)
      else if i < 0 \<and> - int (length xs) \<le> i then Inr (xs ! nat (int (length xs) + i))
      else Inl IndexError)"

definition py_assign :: "'a list \<Rightarrow> int \<Rightarrow> 'a \<Rightarrow> py_error + 'a list" where
  "py_assign xs i v =
     (if 0 \<le> i \<and> i < int (length xs) then Inr (xs[nat i := v])
      else if i < 0 \<and> - int (length xs) \<le> i then Inr (xs[nat (int (length xs) + i) := v])
      else Inl IndexError)"

text \<open>\<open>board[r][c]\<close> and \<open>board[r][c] = v\<close>. The rows of the board are built by a list
  comprehension, so no two rows are the same object and an assignment changes one row.\<close>

definition cell_at :: "Board \<Rightarrow> int \<Rightarrow> int \<Rightarrow> py_error + cell" where
  "cell_at board r c =
     (case py_index board r of Inl e \<Rightarrow> Inl e | Inr row \<Rightarrow> py_index row c)"

definition set_cell :: "Board \<Rightarrow> int \<Rightarrow> int \<Rightarrow> cell \<Rightarrow> py_error + Board" where
  "set_cell board r c v =
     (case py_index board r of
        Inl e \<Rightarrow> Inl e
      | Inr row \<Rightarrow>
          (case py_assign row c v of
             Inl e \<Rightarrow> Inl e
           | Inr row' \<Rightarrow> py_assign board r row'))"

section \<open>\<open>is_valid_move\<close>\<close>

text \<open>
  The \<open>while\<close> loop of \<open>is_valid_move\<close> for one direction, with the loop variables
  \<open>newx\<close>, \<open>newy\<close> and \<open>cnt\<close> as arguments. \<open>Inr True\<close> is the \<open>return True\<close> inside the
  loop; \<open>Inr False\<close> is leaving the loop by \<open>break\<close> or by its condition. The loop is a
  partial function: \<open>None\<close> is a loop that never ends.
\<close>

partial_function (option) is_valid_move_while ::
  "Board \<Rightarrow> Color \<Rightarrow> int \<Rightarrow> int \<Rightarrow> int \<Rightarrow> int \<Rightarrow> int \<Rightarrow> (py_error + bool) option" where
  "is_valid_move_while board turn dx dy newx newy cnt =
     (if 0 \<le> newx \<and> newx < SIZE \<and> 0 \<le> newy \<and> newy < SIZE then
        (case cell_at board newx newy of
           Inl e \<Rightarrow> Some (Inl e)
         | Inr c \<Rightarrow>
             if c = None then Some (Inr False)
             else if cnt = 0 then
               (if c = Some turn then Some (Inr False)
                else is_valid_move_while board turn dx dy (newx + dx) (newy + dy) (cnt + 1))
             else
               (if c = Some turn then Some (Inr True)
                else is_valid_move_while board turn dx dy (newx + dx) (newy + dy) (cnt + 1)))
      else Some (Inr False))"

text \<open>The \<open>for direction in directions\<close> loop, over the directions still to visit.\<close>

fun is_valid_move_for ::
  "Board \<Rightarrow> Color \<Rightarrow> int \<Rightarrow> int \<Rightarrow> (int \<times> int) list \<Rightarrow> (py_error + bool) option" where
  "is_valid_move_for board turn row col [] = Some (Inr False)"
| "is_valid_move_for board turn row col ((dx, dy) # ds) =
     (case is_valid_move_while board turn dx dy (row + dx) (col + dy) 0 of
        None \<Rightarrow> None
      | Some (Inl e) \<Rightarrow> Some (Inl e)
      | Some (Inr found) \<Rightarrow>
          if found then Some (Inr True) else is_valid_move_for board turn row col ds)"

definition is_valid_move :: "int \<Rightarrow> int \<Rightarrow> Color \<Rightarrow> Board \<Rightarrow> (py_error + bool) option" where
  "is_valid_move row col turn board =
     (case cell_at board row col of
        Inl e \<Rightarrow> Some (Inl e)
      | Inr c \<Rightarrow>
          if c \<noteq> None then Some (Inr False)
          else is_valid_move_for board turn row col directions)"

section \<open>\<open>next_steps\<close>\<close>

text \<open>\<open>range(n)\<close> as the list of its values.\<close>

definition range_list :: "int \<Rightarrow> int list" where
  "range_list n = [0..n - 1]"

text \<open>The nested \<open>for\<close> statements of \<open>next_steps\<close>, over the squares still to visit in
  row-major order.\<close>

fun next_steps_for ::
  "Color \<Rightarrow> Board \<Rightarrow> (int \<times> int) list \<Rightarrow> (py_error + Coordinate list) option" where
  "next_steps_for turn board [] = Some (Inr [])"
| "next_steps_for turn board ((i, j) # ps) =
     (case is_valid_move i j turn board of
        None \<Rightarrow> None
      | Some (Inl e) \<Rightarrow> Some (Inl e)
      | Some (Inr ok) \<Rightarrow>
          (case next_steps_for turn board ps of
             None \<Rightarrow> None
           | Some (Inl e) \<Rightarrow> Some (Inl e)
           | Some (Inr rest) \<Rightarrow> Some (Inr (if ok then (i, j) # rest else rest))))"

definition next_steps :: "Color \<Rightarrow> Board \<Rightarrow> (py_error + Coordinate list) option" where
  "next_steps turn board =
     next_steps_for turn board (List.product (range_list SIZE) (range_list SIZE))"

section \<open>The opening position\<close>

text \<open>The board that \<open>play_game\<close> builds: \<open>SIZE\<close> rows of \<open>SIZE\<close> empty squares, then the
  four assignments.\<close>

definition empty_board :: Board where
  "empty_board = replicate (nat SIZE) (replicate (nat SIZE) None)"

definition put :: "Board \<Rightarrow> nat \<Rightarrow> nat \<Rightarrow> cell \<Rightarrow> Board" where
  "put board r c v = board[r := (board ! r)[c := v]]"

definition initial_board :: Board where
  "initial_board =
     put (put (put (put empty_board 3 3 (Some WHITE)) 3 4 (Some BLACK)) 4 3 (Some BLACK))
       4 4 (Some WHITE)"

section \<open>\<open>take_action\<close>\<close>

text \<open>
  The \<open>while\<close> loop of \<open>take_action\<close> for one direction. It is the loop of
  \<open>is_valid_move\<close> with a flag instead of the \<open>return\<close>; the result is the pair of
  \<open>valid\<close> and \<open>cnt\<close> when the loop is left.
\<close>

partial_function (option) take_action_while ::
  "Board \<Rightarrow> Color \<Rightarrow> int \<Rightarrow> int \<Rightarrow> int \<Rightarrow> int \<Rightarrow> int \<Rightarrow> (py_error + bool \<times> int) option" where
  "take_action_while board turn dx dy newx newy cnt =
     (if 0 \<le> newx \<and> newx < SIZE \<and> 0 \<le> newy \<and> newy < SIZE then
        (case cell_at board newx newy of
           Inl e \<Rightarrow> Some (Inl e)
         | Inr c \<Rightarrow>
             if c = None then Some (Inr (False, cnt))
             else if cnt = 0 then
               (if c = Some turn then Some (Inr (False, cnt))
                else take_action_while board turn dx dy (newx + dx) (newy + dy) (cnt + 1))
             else
               (if c = Some turn then Some (Inr (True, cnt))
                else take_action_while board turn dx dy (newx + dx) (newy + dy) (cnt + 1)))
      else Some (Inr (False, cnt)))"

text \<open>
  The loop \<open>for i in range(0, cnt)\<close> that turns the squares of one line, over the values
  of \<open>i\<close> still to visit. The state is the board with the two counters that the loop
  changes.
\<close>

fun take_action_flip ::
  "int \<Rightarrow> int \<Rightarrow> Color \<Rightarrow> int \<Rightarrow> int \<Rightarrow> int list \<Rightarrow> Board \<times> int \<times> int
     \<Rightarrow> py_error + Board \<times> int \<times> int" where
  "take_action_flip row col turn dx dy [] st = Inr st"
| "take_action_flip row col turn dx dy (i # is) (board, b_cnt, w_cnt) =
     (case set_cell board (row + dx * (i + 1)) (col + dy * (i + 1)) (Some turn) of
        Inl e \<Rightarrow> Inl e
      | Inr board' \<Rightarrow>
          take_action_flip row col turn dx dy is
            (if turn = BLACK then (board', b_cnt + 1, w_cnt - 1)
             else (board', b_cnt - 1, w_cnt + 1)))"

text \<open>The \<open>for direction in directions\<close> loop of \<open>take_action\<close>.\<close>

fun take_action_for ::
  "int \<Rightarrow> int \<Rightarrow> Color \<Rightarrow> (int \<times> int) list \<Rightarrow> Board \<times> int \<times> int
     \<Rightarrow> (py_error + Board \<times> int \<times> int) option" where
  "take_action_for row col turn [] st = Some (Inr st)"
| "take_action_for row col turn ((dx, dy) # ds) (board, b_cnt, w_cnt) =
     (case take_action_while board turn dx dy (row + dx) (col + dy) 0 of
        None \<Rightarrow> None
      | Some (Inl e) \<Rightarrow> Some (Inl e)
      | Some (Inr (valid, cnt)) \<Rightarrow>
          if valid then
            (case take_action_flip row col turn dx dy (range_list cnt) (board, b_cnt, w_cnt) of
               Inl e \<Rightarrow> Some (Inl e)
             | Inr st' \<Rightarrow> take_action_for row col turn ds st')
          else take_action_for row col turn ds (board, b_cnt, w_cnt))"

text \<open>
  \<open>take_action\<close> changes the board in place and returns the three counters; the model
  returns the board with them.
\<close>

definition take_action ::
  "int \<Rightarrow> int \<Rightarrow> Color \<Rightarrow> Board \<Rightarrow> int \<Rightarrow> int \<Rightarrow> int \<Rightarrow> Coordinate
     \<Rightarrow> (py_error + Board \<times> int \<times> int \<times> int) option" where
  "take_action row col turn board b_cnt w_cnt t_cnt move =
     (case set_cell board (fst move) (snd move) (Some turn) of
        Inl e \<Rightarrow> Some (Inl e)
      | Inr board1 \<Rightarrow>
          (case take_action_for row col turn directions
                  (board1,
                   if turn = BLACK then b_cnt + 1 else b_cnt,
                   if turn = BLACK then w_cnt else w_cnt + 1) of
             None \<Rightarrow> None
           | Some (Inl e) \<Rightarrow> Some (Inl e)
           | Some (Inr (board', b_cnt', w_cnt')) \<Rightarrow>
               Some (Inr (board', b_cnt', w_cnt', t_cnt + 1))))"

section \<open>\<open>check_end_status\<close>, \<open>parse_coordinate\<close> and \<open>play_game\<close>\<close>

text \<open>
  What the program prints, one constructor for each \<open>print\<close> that carries information
  (the blank lines and the frame around the board are left out). \<open>ShowBoard\<close> stands for
  the text of \<open>board_str(board, next_step_candidates)\<close>.
\<close>

datatype event =
    NoValidMove
  | Score int int int
  | ShowBoard Board "Coordinate list"
  | EnterMove Color
  | InvalidMove string
  | NotValidMove
  | OneLose
  | FullBoard
  | GameEnd

definition check_end_status :: "Color \<Rightarrow> int \<Rightarrow> int \<Rightarrow> int \<Rightarrow> bool \<times> event list" where
  "check_end_status turn b_cnt w_cnt t_cnt =
     (if b_cnt = 0 \<or> w_cnt = 0 then (True, [OneLose])
      else if t_cnt = SIZE * SIZE then (True, [FullBoard])
      else (False, []))"

text \<open>
  \<open>str.lower()\<close> and \<open>str.strip()\<close> on a line of ASCII characters: the letters \<open>A\<close> to
  \<open>Z\<close> are lowered, and the characters that Python counts as white space (codes 9 to 13,
  28 to 31 and 32) are removed at both ends. A line is a \<open>string\<close> of 8-bit characters;
  the model says nothing about lines with characters outside ASCII.
\<close>

definition ord :: "char \<Rightarrow> int" where
  "ord c = int (of_char c)"

definition lower_char :: "char \<Rightarrow> char" where
  "lower_char c =
     (if ord CHR ''A'' \<le> ord c \<and> ord c \<le> ord CHR ''Z'' then char_of (of_char c + (32::nat))
      else c)"

definition is_space :: "char \<Rightarrow> bool" where
  "is_space c = (ord c \<in> {9, 10, 11, 12, 13, 28, 29, 30, 31, 32})"

definition strip :: "string \<Rightarrow> string" where
  "strip s = rev (dropWhile is_space (rev (dropWhile is_space s)))"

text \<open>\<open>Inl\<close> is the message of the \<open>CoordinateParseError\<close> raised.\<close>

definition parse_coordinate :: "string \<Rightarrow> string + Coordinate" where
  "parse_coordinate str0 =
     (let str = strip (map lower_char str0) in
      if length str \<noteq> 2 then Inl ''Input must be length 2''
      else
        let row = ord (str ! 1) - ord CHR ''1'' in
        if \<not> (0 \<le> row \<and> row < SIZE) then Inl ''Row out of bounds''
        else
          let col = ord (str ! 0) - ord CHR ''a'' in
          if \<not> (0 \<le> col \<and> col < SIZE) then Inl ''Col out of bounds''
          else Inr (row, col))"

text \<open>
  The local variables of \<open>play_game\<close>, with the lines of \<open>input\<close> not yet read and
  everything printed so far.
\<close>

record game =
  s_board :: Board
  s_turn :: Color
  s_b_cnt :: int
  s_w_cnt :: int
  s_t_cnt :: int
  s_input :: "string list"
  s_output :: "event list"

text \<open>\<open>Color.BLACK if turn != Color.BLACK else Color.WHITE\<close>\<close>

definition switch_user :: "Color \<Rightarrow> Color" where
  "switch_user turn = (if turn \<noteq> BLACK then BLACK else WHITE)"

text \<open>
  How one pass through the body of \<open>while True\<close> ends: with \<open>continue\<close> or at the end of
  the body, with \<open>break\<close>, or with an exception that \<open>play_game\<close> does not catch.

  \<open>input\<close> is an iterator over lines, here the list of the lines still to come; \<open>next\<close>
  on an exhausted iterator raises \<open>StopIteration\<close>, which none of the three handlers
  catches. The handlers for \<open>EOFError\<close> and \<open>KeyboardInterrupt\<close> have no counterpart:
  \<open>next\<close> raises neither, and an interrupt from the keyboard is not part of the model.
\<close>

datatype outcome = Continue game | Break game | Raise py_error

definition play_game_body :: "game \<Rightarrow> outcome option" where
  "play_game_body s =
     (case next_steps (s_turn s) (s_board s) of
        None \<Rightarrow> None
      | Some (Inl e) \<Rightarrow> Some (Raise e)
      | Some (Inr next_step_candidates) \<Rightarrow>
          if next_step_candidates = [] then
            Some (Continue (s\<lparr>s_turn := switch_user (s_turn s),
                               s_output := s_output s @ [NoValidMove]\<rparr>))
          else
            let s1 = s\<lparr>s_output := s_output s @
                        [Score (s_b_cnt s) (s_w_cnt s) (s_t_cnt s),
                         ShowBoard (s_board s) next_step_candidates,
                         EnterMove (s_turn s)]\<rparr>
            in
            (case s_input s1 of
               [] \<Rightarrow> Some (Raise StopIteration)
             | str # rest \<Rightarrow>
                 let s2 = s1\<lparr>s_input := rest\<rparr> in
                 (case parse_coordinate str of
                    Inl msg \<Rightarrow>
                      Some (Continue (s2\<lparr>s_output := s_output s2 @ [InvalidMove msg]\<rparr>))
                  | Inr move \<Rightarrow>
                      (case is_valid_move (fst move) (snd move) (s_turn s2) (s_board s2) of
                         None \<Rightarrow> None
                       | Some (Inl e) \<Rightarrow> Some (Raise e)
                       | Some (Inr ok) \<Rightarrow>
                           if \<not> ok then
                             Some (Continue (s2\<lparr>s_output := s_output s2 @ [NotValidMove]\<rparr>))
                           else
                             (case take_action (fst move) (snd move) (s_turn s2) (s_board s2)
                                     (s_b_cnt s2) (s_w_cnt s2) (s_t_cnt s2) move of
                                None \<Rightarrow> None
                              | Some (Inl e) \<Rightarrow> Some (Raise e)
                              | Some (Inr (board', b', w', t')) \<Rightarrow>
                                  let s3 = s2\<lparr>s_board := board', s_b_cnt := b',
                                              s_w_cnt := w', s_t_cnt := t',
                                              s_output := s_output s2 @
                                                snd (check_end_status (s_turn s2) b' w' t')\<rparr>
                                  in
                                  if fst (check_end_status (s_turn s2) b' w' t') then
                                    Some (Break (s3\<lparr>s_output := s_output s3 @
                                                    [GameEnd, Score b' w' t']\<rparr>))
                                  else
                                    Some (Continue (s3\<lparr>s_turn := switch_user (s_turn s3)\<rparr>)))))))"

text \<open>The loop \<open>while True\<close>; \<open>None\<close> is a game that never returns.\<close>

partial_function (option) play_game_loop :: "game \<Rightarrow> (py_error + game) option" where
  "play_game_loop s =
     (case play_game_body s of
        None \<Rightarrow> None
      | Some (Continue s') \<Rightarrow> play_game_loop s'
      | Some (Break s') \<Rightarrow> Some (Inr s')
      | Some (Raise e) \<Rightarrow> Some (Inl e))"

definition initial_game :: "string list \<Rightarrow> game" where
  "initial_game lines =
     \<lparr>s_board = initial_board, s_turn = BLACK, s_b_cnt = 2, s_w_cnt = 2, s_t_cnt = 4,
      s_input = lines, s_output = []\<rparr>"

definition play_game :: "string list \<Rightarrow> (py_error + game) option" where
  "play_game lines = play_game_loop (initial_game lines)"

section \<open>Notions used to state the properties\<close>

text \<open>
  The board of a game has \<open>SIZE\<close> rows of \<open>SIZE\<close> squares, and a coordinate is on the
  board when both components are in \<open>[0, SIZE)\<close>.
\<close>

definition wf_board :: "Board \<Rightarrow> bool" where
  "wf_board board =
     (int (length board) = SIZE \<and> list_all (\<lambda>row. int (length row) = SIZE) board)"

definition in_bounds :: "int \<Rightarrow> int \<Rightarrow> bool" where
  "in_bounds r c = (0 \<le> r \<and> r < SIZE \<and> 0 \<le> c \<and> c < SIZE)"

text \<open>The content of a square that is on the board, without the error case.\<close>

definition sq :: "Board \<Rightarrow> int \<Rightarrow> int \<Rightarrow> cell" where
  "sq board r c = board ! nat r ! nat c"

text \<open>
  A line that the move of \<open>turn\<close> at \<open>(row, col)\<close> bookends in direction \<open>d\<close>: walking from
  the target, \<open>k \<ge> 1\<close> squares on the board that all hold the other colour, and then a
  square on the board that holds the mover's colour.
\<close>

definition bookended :: "Board \<Rightarrow> Color \<Rightarrow> int \<Rightarrow> int \<Rightarrow> int \<times> int \<Rightarrow> bool" where
  "bookended board turn row col d =
     (\<exists>k::nat. 1 \<le> k \<and>
        (\<forall>i\<in>{1..k}.
           in_bounds (row + int i * fst d) (col + int i * snd d) \<and>
           cell_at board (row + int i * fst d) (col + int i * snd d) =
             Inr (Some (switch_user turn))) \<and>
        in_bounds (row + int (k + 1) * fst d) (col + int (k + 1) * snd d) \<and>
        cell_at board (row + int (k + 1) * fst d) (col + int (k + 1) * snd d) =
          Inr (Some turn))"

text \<open>
  The same line seen from inside the \<open>while\<close> loop, which is at \<open>(x, y)\<close> after \<open>cnt\<close>
  steps: \<open>m\<close> more squares of the other colour and then one of the mover's, where the
  line is not empty (\<open>cnt\<close> and \<open>m\<close> are not both zero).
\<close>

definition ray :: "Board \<Rightarrow> Color \<Rightarrow> int \<Rightarrow> int \<Rightarrow> int \<Rightarrow> int \<Rightarrow> int \<Rightarrow> bool" where
  "ray b turn dx dy x y cnt =
     (\<exists>m::nat.
        (\<forall>i<m. in_bounds (x + int i * dx) (y + int i * dy) \<and>
               sq b (x + int i * dx) (y + int i * dy) = Some (switch_user turn)) \<and>
        in_bounds (x + int m * dx) (y + int m * dy) \<and>
        sq b (x + int m * dx) (y + int m * dy) = Some turn \<and>
        (cnt \<noteq> 0 \<or> 0 < m))"

text \<open>
  The number of steps that a walk from \<open>(x, y)\<close> in direction \<open>(dx, dy)\<close> can still make
  on the board; it bounds the iterations of either \<open>while\<close> loop.
\<close>

definition steps_left :: "int \<Rightarrow> int \<Rightarrow> int \<Rightarrow> int \<Rightarrow> nat" where
  "steps_left dx dy x y =
     nat ((if dx = 1 then SIZE - x else if dx = - 1 then x + 1 else 0) +
          (if dy = 1 then SIZE - y else if dy = - 1 then y + 1 else 0))"

text \<open>
  The squares of the board in row-major order, the number of squares that hold a given
  content (a recount of the board), and the squares that a move of \<open>turn\<close> has turned:
  those that held the other colour before and hold the mover's colour after.
\<close>

definition squares :: "Coordinate list" where
  "squares = List.product (range_list SIZE) (range_list SIZE)"

definition count_cells :: "Board \<Rightarrow> cell \<Rightarrow> int" where
  "count_cells board v = int (length (filter (\<lambda>(r, c). cell_at board r c = Inr v) squares))"

definition flipped_cells :: "Board \<Rightarrow> Board \<Rightarrow> Color \<Rightarrow> Coordinate list" where
  "flipped_cells board board' turn =
     filter (\<lambda>(r, c). cell_at board r c = Inr (Some (switch_user turn)) \<and>
                      cell_at board' r c = Inr (Some turn)) squares"

definition changed_cells :: "Board \<Rightarrow> Board \<Rightarrow> Coordinate list" where
  "changed_cells board board' = filter (\<lambda>(r, c). cell_at board r c \<noteq> cell_at board' r c) squares"

text \<open>
  The invariant that \<open>take_action\<close> keeps while it iterates, between the board \<open>b0\<close> with the counters
  \<open>bc0\<close> and \<open>wc0\<close> right after the new piece is placed and a later state of the iteration:
  a square is as it was or has turned from the other colour to the mover's, and the two
  counters have moved by the number of squares turned.
\<close>

definition tracks :: "Color \<Rightarrow> Board \<Rightarrow> int \<Rightarrow> int \<Rightarrow> Board \<times> int \<times> int \<Rightarrow> bool" where
  "tracks turn b0 bc0 wc0 st =
     (case st of (b, bc, wc) \<Rightarrow>
        wf_board b \<and>
        (\<forall>(r, c)\<in>set squares.
            sq b r c = sq b0 r c \<or>
            (sq b0 r c = Some (switch_user turn) \<and> sq b r c = Some turn)) \<and>
        bc = bc0 + (if turn = BLACK then 1 else - 1) * int (length (flipped_cells b0 b turn)) \<and>
        wc = wc0 - (if turn = BLACK then 1 else - 1) * int (length (flipped_cells b0 b turn)))"

text \<open>
  The states that a game passes through: the state in which \<open>play_game\<close> enters its
  loop, and every state that one pass through the body of the loop leads to.
\<close>

inductive reachable :: "game \<Rightarrow> bool" where
  start: "reachable (initial_game lines)"
| continue: "reachable s \<Longrightarrow> play_game_body s = Some (Continue s') \<Longrightarrow> reachable s'"
| break: "reachable s \<Longrightarrow> play_game_body s = Some (Break s') \<Longrightarrow> reachable s'"

text \<open>The counters of a state are those of a recount of its board.\<close>

definition counts_ok :: "game \<Rightarrow> bool" where
  "counts_ok s =
     (wf_board (s_board s) \<and>
      s_b_cnt s = count_cells (s_board s) (Some BLACK) \<and>
      s_w_cnt s = count_cells (s_board s) (Some WHITE) \<and>
      s_t_cnt s = s_b_cnt s + s_w_cnt s)"

text \<open>\<open>n\<close> passes through the body of the loop, stopping early when the loop is left.\<close>

fun passes :: "nat \<Rightarrow> game \<Rightarrow> outcome option" where
  "passes 0 s = Some (Continue s)"
| "passes (Suc n) s =
     (case play_game_body s of
        Some (Continue s') \<Rightarrow> passes n s'
      | other \<Rightarrow> other)"

section \<open>Positions and games used as examples\<close>

text \<open>
  The position of the example in the module's docstring, in which Black plays g6:
  \<^verbatim>\<open>
    a b c d e f g h
  3       W B W
  4     W B B W B
  5   W B W B W
  6   B W W W W
  \<close>
\<close>

definition midgame_board :: Board where
  "midgame_board =
     [[None, None, None, None, None, None, None, None],
      [None, None, None, None, None, None, None, None],
      [None, None, None, Some WHITE, Some BLACK, Some WHITE, None, None],
      [None, None, Some WHITE, Some BLACK, Some BLACK, Some WHITE, Some BLACK, None],
      [None, Some WHITE, Some BLACK, Some WHITE, Some BLACK, Some WHITE, None, None],
      [None, Some BLACK, Some WHITE, Some WHITE, Some WHITE, Some WHITE, None, None],
      [None, None, None, None, None, None, None, None],
      [None, None, None, None, None, None, None, None]]"

definition midgame_after :: Board where
  "midgame_after =
     [[None, None, None, None, None, None, None, None],
      [None, None, None, None, None, None, None, None],
      [None, None, None, Some WHITE, Some BLACK, Some WHITE, None, None],
      [None, None, Some WHITE, Some BLACK, Some BLACK, Some WHITE, Some BLACK, None],
      [None, Some WHITE, Some BLACK, Some WHITE, Some BLACK, Some BLACK, None, None],
      [None, Some BLACK, Some BLACK, Some BLACK, Some BLACK, Some BLACK, Some BLACK, None],
      [None, None, None, None, None, None, None, None],
      [None, None, None, None, None, None, None, None]]"

text \<open>
  A game of nineteen moves after which neither colour has a move, while both have pieces
  and the board is not full, and a game of nine moves in which Black takes the last white
  piece. Each line is a move as a player types it.
\<close>

definition stuck_game :: "string list" where
  "stuck_game =
     [''c4'', ''c5'', ''c6'', ''e3'', ''f3'', ''c3'', ''c2'', ''f4'', ''g4'', ''g3'',
      ''f2'', ''b4'', ''a4'', ''f5'', ''f6'', ''e1'', ''g1'', ''g5'', ''h4'']"

definition wipeout_game :: "string list" where
  "wipeout_game = [''e6'', ''f4'', ''e3'', ''f6'', ''g5'', ''d6'', ''e7'', ''f5'', ''c5'']"

text \<open>The position of \<open>wipeout_game\<close> before its last move, and after it.\<close>

definition wipeout_before :: Board where
  "wipeout_before =
     [[None, None, None, None, None, None, None, None],
      [None, None, None, None, None, None, None, None],
      [None, None, None, None, Some BLACK, None, None, None],
      [None, None, None, Some WHITE, Some BLACK, Some BLACK, None, None],
      [None, None, None, Some WHITE, Some WHITE, Some WHITE, Some BLACK, None],
      [None, None, None, Some WHITE, Some BLACK, Some BLACK, None, None],
      [None, None, None, None, Some BLACK, None, None, None],
      [None, None, None, None, None, None, None, None]]"

definition wipeout_after :: Board where
  "wipeout_after =
     [[None, None, None, None, None, None, None, None],
      [None, None, None, None, None, None, None, None],
      [None, None, None, None, Some BLACK, None, None, None],
      [None, None, None, Some BLACK, Some BLACK, Some BLACK, None, None],
      [None, None, Some BLACK, Some BLACK, Some BLACK, Some BLACK, Some BLACK, None],
      [None, None, None, Some BLACK, Some BLACK, Some BLACK, None, None],
      [None, None, None, None, Some BLACK, None, None, None],
      [None, None, None, None, None, None, None, None]]"

section \<open>Reading and writing squares of a well-formed board\<close>

lemma wf_board_row: "wf_board b \<Longrightarrow> 0 \<le> r \<Longrightarrow> r < SIZE \<Longrightarrow> int (length (b ! nat r)) = SIZE"
proof -
  assume wf: "wf_board b" and r: "0 \<le> r" "r < SIZE"
  from wf r have "nat r < length b" unfolding wf_board_def by linarith
  with wf show ?thesis by (simp add: wf_board_def list_all_length)
qed

lemma cell_at_wf: "wf_board b \<Longrightarrow> in_bounds r c \<Longrightarrow> cell_at b r c = Inr (sq b r c)"
  using wf_board_row[of b r]
  by (simp add: cell_at_def py_index_def in_bounds_def sq_def wf_board_def)

lemma set_cell_wf:
  "wf_board b \<Longrightarrow> in_bounds r c \<Longrightarrow> set_cell b r c v = Inr (put b (nat r) (nat c) v)"
  using wf_board_row[of b r]
  by (simp add: set_cell_def py_index_def py_assign_def in_bounds_def put_def wf_board_def)

lemma wf_board_put: "wf_board b \<Longrightarrow> wf_board (put b r c v)"
  by (cases "r < length b") (auto simp: wf_board_def put_def list_all_length nth_list_update)

lemma sq_put:
  "wf_board b \<Longrightarrow> in_bounds r c \<Longrightarrow> in_bounds r' c' \<Longrightarrow>
   sq (put b (nat r) (nat c) v) r' c' = (if r' = r \<and> c' = c then v else sq b r' c')"
  using wf_board_row[of b r]
  by (auto simp: sq_def put_def in_bounds_def wf_board_def nth_list_update)

section \<open>The line scan of \<open>is_valid_move\<close>\<close>

lemma other_color: "c \<noteq> turn \<longleftrightarrow> c = switch_user turn"
  by (cases c; cases turn) (simp_all add: switch_user_def)

lemma switch_user_neq [simp]: "switch_user turn \<noteq> turn" "turn \<noteq> switch_user turn"
  by (cases turn; simp add: switch_user_def)+

lemma cell_cases: "c = None \<or> c = Some turn \<or> c = Some (switch_user turn)"
proof (cases c)
  case None
  then show ?thesis by simp
next
  case (Some a)
  then show ?thesis using other_color[of a turn] by auto
qed

lemma steps_left_less:
  "(dx, dy) \<in> set directions \<Longrightarrow> in_bounds x y \<Longrightarrow>
   steps_left dx dy (x + dx) (y + dy) < steps_left dx dy x y"
  by (auto simp: directions_def in_bounds_def steps_left_def SIZE_def)

lemma is_valid_move_while_returns:
  assumes d: "(dx, dy) \<in> set directions"
  shows "\<exists>res. is_valid_move_while b turn dx dy x y cnt = Some res"
proof (induction "steps_left dx dy x y" arbitrary: x y cnt rule: less_induct)
  case less
  show ?case
  proof (cases "in_bounds x y")
    case False
    then show ?thesis
      by (subst is_valid_move_while.simps) (auto simp: in_bounds_def)
  next
    case True
    from steps_left_less[OF d True] less
    have IH: "\<exists>res. is_valid_move_while b turn dx dy (x + dx) (y + dy) c = Some res" for c
      by blast
    from True have bounds: "0 \<le> x \<and> x < SIZE \<and> 0 \<le> y \<and> y < SIZE"
      by (simp add: in_bounds_def)
    show ?thesis
      by (subst is_valid_move_while.simps) (simp add: bounds IH split: sum.split)
  qed
qed

lemma ray_outside: "\<not> in_bounds x y \<Longrightarrow> \<not> ray b turn dx dy x y cnt"
  unfolding ray_def
proof (rule notI, elim exE conjE)
  fix m :: nat
  assume nb: "\<not> in_bounds x y"
    and run: "\<forall>i<m. in_bounds (x + int i * dx) (y + int i * dy) \<and>
               sq b (x + int i * dx) (y + int i * dy) = Some (switch_user turn)"
    and e: "in_bounds (x + int m * dx) (y + int m * dy)"
  show False
  proof (cases m)
    case 0
    with e nb show False by simp
  next
    case (Suc k)
    with run have "in_bounds (x + int 0 * dx) (y + int 0 * dy)" by blast
    with nb show False by simp
  qed
qed

lemma ray_empty: "sq b x y = None \<Longrightarrow> \<not> ray b turn dx dy x y cnt"
  unfolding ray_def
proof (rule notI, elim exE conjE)
  fix m :: nat
  assume nb: "sq b x y = None"
    and run: "\<forall>i<m. in_bounds (x + int i * dx) (y + int i * dy) \<and>
               sq b (x + int i * dx) (y + int i * dy) = Some (switch_user turn)"
    and e: "sq b (x + int m * dx) (y + int m * dy) = Some turn"
  show False
  proof (cases m)
    case 0
    with e nb show False by simp
  next
    case (Suc k)
    with run have "sq b (x + int 0 * dx) (y + int 0 * dy) = Some (switch_user turn)" by blast
    with nb show False by simp
  qed
qed

lemma ray_own:
  assumes "in_bounds x y" "sq b x y = Some turn"
  shows "ray b turn dx dy x y cnt \<longleftrightarrow> cnt \<noteq> 0"
proof
  assume "ray b turn dx dy x y cnt"
  then obtain m :: nat where
    run: "\<forall>i<m. in_bounds (x + int i * dx) (y + int i * dy) \<and>
               sq b (x + int i * dx) (y + int i * dy) = Some (switch_user turn)"
    and c: "cnt \<noteq> 0 \<or> 0 < m"
    unfolding ray_def by blast
  show "cnt \<noteq> 0"
  proof (cases m)
    case 0
    with c show ?thesis by simp
  next
    case (Suc k)
    with run have "sq b (x + int 0 * dx) (y + int 0 * dy) = Some (switch_user turn)" by blast
    with assms show ?thesis by simp
  qed
next
  assume "cnt \<noteq> 0"
  with assms show "ray b turn dx dy x y cnt"
    unfolding ray_def by (intro exI[of _ 0]) simp
qed

lemma ray_other:
  assumes ib: "in_bounds x y" and o: "sq b x y = Some (switch_user turn)" and c: "0 \<le> cnt"
  shows "ray b turn dx dy x y cnt \<longleftrightarrow> ray b turn dx dy (x + dx) (y + dy) (cnt + 1)"
proof
  assume "ray b turn dx dy x y cnt"
  then obtain m :: nat where
    run: "\<forall>i<m. in_bounds (x + int i * dx) (y + int i * dy) \<and>
               sq b (x + int i * dx) (y + int i * dy) = Some (switch_user turn)"
    and e: "in_bounds (x + int m * dx) (y + int m * dy)"
           "sq b (x + int m * dx) (y + int m * dy) = Some turn"
    unfolding ray_def by blast
  from e o obtain k where m: "m = Suc k"
    by (cases m) auto
  have "\<forall>i<k. in_bounds (x + dx + int i * dx) (y + dy + int i * dy) \<and>
               sq b (x + dx + int i * dx) (y + dy + int i * dy) = Some (switch_user turn)"
  proof (intro allI impI)
    fix i assume "i < k"
    with m have "Suc i < m" by simp
    with run have "in_bounds (x + int (Suc i) * dx) (y + int (Suc i) * dy) \<and>
               sq b (x + int (Suc i) * dx) (y + int (Suc i) * dy) = Some (switch_user turn)"
      by blast
    then show "in_bounds (x + dx + int i * dx) (y + dy + int i * dy) \<and>
               sq b (x + dx + int i * dx) (y + dy + int i * dy) = Some (switch_user turn)"
      by (simp add: algebra_simps)
  qed
  moreover from e m have "in_bounds (x + dx + int k * dx) (y + dy + int k * dy)"
    "sq b (x + dx + int k * dx) (y + dy + int k * dy) = Some turn"
    by (simp_all add: algebra_simps)
  moreover from c have "cnt + 1 \<noteq> 0" by simp
  ultimately show "ray b turn dx dy (x + dx) (y + dy) (cnt + 1)"
    unfolding ray_def by blast
next
  assume "ray b turn dx dy (x + dx) (y + dy) (cnt + 1)"
  then obtain k :: nat where
    run: "\<forall>i<k. in_bounds (x + dx + int i * dx) (y + dy + int i * dy) \<and>
               sq b (x + dx + int i * dx) (y + dy + int i * dy) = Some (switch_user turn)"
    and e: "in_bounds (x + dx + int k * dx) (y + dy + int k * dy)"
           "sq b (x + dx + int k * dx) (y + dy + int k * dy) = Some turn"
    unfolding ray_def by blast
  have "\<forall>i<Suc k. in_bounds (x + int i * dx) (y + int i * dy) \<and>
               sq b (x + int i * dx) (y + int i * dy) = Some (switch_user turn)"
  proof (intro allI impI)
    fix i assume i: "i < Suc k"
    show "in_bounds (x + int i * dx) (y + int i * dy) \<and>
               sq b (x + int i * dx) (y + int i * dy) = Some (switch_user turn)"
    proof (cases i)
      case 0
      with ib o show ?thesis by simp
    next
      case (Suc j)
      with i have "j < k" by simp
      with run have "in_bounds (x + dx + int j * dx) (y + dy + int j * dy) \<and>
               sq b (x + dx + int j * dx) (y + dy + int j * dy) = Some (switch_user turn)"
        by blast
      with Suc show ?thesis by (simp add: algebra_simps)
    qed
  qed
  moreover from e have "in_bounds (x + int (Suc k) * dx) (y + int (Suc k) * dy)"
    "sq b (x + int (Suc k) * dx) (y + int (Suc k) * dy) = Some turn"
    by (simp_all add: algebra_simps)
  ultimately show "ray b turn dx dy x y cnt"
    unfolding ray_def by (intro exI[of _ "Suc k"]) simp
qed

lemma is_valid_move_while_ray:
  assumes wf: "wf_board b" and d: "(dx, dy) \<in> set directions"
  shows "0 \<le> cnt \<Longrightarrow>
         is_valid_move_while b turn dx dy x y cnt = Some (Inr (ray b turn dx dy x y cnt))"
proof (induction "steps_left dx dy x y" arbitrary: x y cnt rule: less_induct)
  case less
  show ?case
  proof (cases "in_bounds x y")
    case False
    with ray_outside[OF False] show ?thesis
      by (subst is_valid_move_while.simps) (auto simp: in_bounds_def)
  next
    case True
    have c1: "0 \<le> cnt + 1" using less.prems by simp
    from steps_left_less[OF d True] less.hyps c1
    have IH: "is_valid_move_while b turn dx dy (x + dx) (y + dy) (cnt + 1) =
               Some (Inr (ray b turn dx dy (x + dx) (y + dy) (cnt + 1)))"
      by blast
    have bounds: "0 \<le> x \<and> x < SIZE \<and> 0 \<le> y \<and> y < SIZE"
      using True by (simp add: in_bounds_def)
    from cell_cases[of "sq b x y" turn] show ?thesis
    proof (elim disjE)
      assume none: "sq b x y = None"
      with ray_empty[OF none] bounds cell_at_wf[OF wf True] show ?thesis
        by (subst is_valid_move_while.simps) simp
    next
      assume own: "sq b x y = Some turn"
      with ray_own[OF True own] bounds cell_at_wf[OF wf True] show ?thesis
        by (subst is_valid_move_while.simps) simp
    next
      assume other: "sq b x y = Some (switch_user turn)"
      with bounds cell_at_wf[OF wf True]
      have "is_valid_move_while b turn dx dy x y cnt =
            is_valid_move_while b turn dx dy (x + dx) (y + dy) (cnt + 1)"
        by (subst is_valid_move_while.simps) simp
      with IH ray_other[OF True other less.prems] show ?thesis
        by simp
    qed
  qed
qed

lemma ray_bookended:
  assumes wf: "wf_board b"
  shows "ray b turn dx dy (row + dx) (col + dy) 0 \<longleftrightarrow> bookended b turn row col (dx, dy)"
proof
  assume "ray b turn dx dy (row + dx) (col + dy) 0"
  then obtain m :: nat where
    run: "\<forall>i<m. in_bounds (row + dx + int i * dx) (col + dy + int i * dy) \<and>
               sq b (row + dx + int i * dx) (col + dy + int i * dy) = Some (switch_user turn)"
    and e: "in_bounds (row + dx + int m * dx) (col + dy + int m * dy)"
           "sq b (row + dx + int m * dx) (col + dy + int m * dy) = Some turn"
    and m: "0 < m"
    unfolding ray_def by auto
  have "\<forall>i\<in>{1..m}.
           in_bounds (row + int i * dx) (col + int i * dy) \<and>
           cell_at b (row + int i * dx) (col + int i * dy) = Inr (Some (switch_user turn))"
  proof
    fix i assume "i \<in> {1..m}"
    then obtain j where j: "i = Suc j" "j < m"
      by (cases i) auto
    with run have *: "in_bounds (row + dx + int j * dx) (col + dy + int j * dy) \<and>
               sq b (row + dx + int j * dx) (col + dy + int j * dy) = Some (switch_user turn)"
      by blast
    have eq: "row + int i * dx = row + dx + int j * dx" "col + int i * dy = col + dy + int j * dy"
      using j by (simp_all add: algebra_simps)
    from * cell_at_wf[OF wf] show "in_bounds (row + int i * dx) (col + int i * dy) \<and>
           cell_at b (row + int i * dx) (col + int i * dy) = Inr (Some (switch_user turn))"
      unfolding eq by simp
  qed
  moreover
  have eq: "row + int (m + 1) * dx = row + dx + int m * dx"
           "col + int (m + 1) * dy = col + dy + int m * dy"
    by (simp_all add: algebra_simps)
  from e cell_at_wf[OF wf] have "in_bounds (row + int (m + 1) * dx) (col + int (m + 1) * dy) \<and>
     cell_at b (row + int (m + 1) * dx) (col + int (m + 1) * dy) = Inr (Some turn)"
    unfolding eq by simp
  ultimately show "bookended b turn row col (dx, dy)"
    unfolding bookended_def using m by (intro exI[of _ m]) simp
next
  assume "bookended b turn row col (dx, dy)"
  then obtain k :: nat where k: "1 \<le> k"
    and run: "\<forall>i\<in>{1..k}.
           in_bounds (row + int i * dx) (col + int i * dy) \<and>
           cell_at b (row + int i * dx) (col + int i * dy) = Inr (Some (switch_user turn))"
    and e: "in_bounds (row + int (k + 1) * dx) (col + int (k + 1) * dy)"
       "cell_at b (row + int (k + 1) * dx) (col + int (k + 1) * dy) = Inr (Some turn)"
    unfolding bookended_def by auto
  have "\<forall>i<k. in_bounds (row + dx + int i * dx) (col + dy + int i * dy) \<and>
               sq b (row + dx + int i * dx) (col + dy + int i * dy) = Some (switch_user turn)"
  proof (intro allI impI)
    fix i assume "i < k"
    then have "Suc i \<in> {1..k}" by simp
    with run have *: "in_bounds (row + int (Suc i) * dx) (col + int (Suc i) * dy) \<and>
           cell_at b (row + int (Suc i) * dx) (col + int (Suc i) * dy) =
             Inr (Some (switch_user turn))"
      by blast
    have eq: "row + int (Suc i) * dx = row + dx + int i * dx"
             "col + int (Suc i) * dy = col + dy + int i * dy"
      by (simp_all add: algebra_simps)
    from * show "in_bounds (row + dx + int i * dx) (col + dy + int i * dy) \<and>
               sq b (row + dx + int i * dx) (col + dy + int i * dy) = Some (switch_user turn)"
      unfolding eq using cell_at_wf[OF wf] by auto
  qed
  moreover
  have eq: "row + int (k + 1) * dx = row + dx + int k * dx"
           "col + int (k + 1) * dy = col + dy + int k * dy"
    by (simp_all add: algebra_simps)
  from e have "in_bounds (row + dx + int k * dx) (col + dy + int k * dy) \<and>
     sq b (row + dx + int k * dx) (col + dy + int k * dy) = Some turn"
    unfolding eq using cell_at_wf[OF wf] by auto
  ultimately show "ray b turn dx dy (row + dx) (col + dy) 0"
    unfolding ray_def using k by (intro exI[of _ k]) simp
qed

lemma is_valid_move_for_bookended:
  assumes wf: "wf_board b"
  shows "set ds \<subseteq> set directions \<Longrightarrow>
         is_valid_move_for b turn row col ds =
           Some (Inr (\<exists>d\<in>set ds. bookended b turn row col d))"
proof (induction ds)
  case Nil
  show ?case by simp
next
  case (Cons d ds)
  obtain dx dy where d: "d = (dx, dy)" by (cases d)
  with Cons.prems have dir: "(dx, dy) \<in> set directions" and rest: "set ds \<subseteq> set directions"
    by auto
  have scan: "is_valid_move_while b turn dx dy (row + dx) (col + dy) 0 =
              Some (Inr (bookended b turn row col (dx, dy)))"
    using is_valid_move_while_ray[OF wf dir, of 0 turn "row + dx" "col + dy"]
      ray_bookended[OF wf, of turn dx dy row col] by simp
  show ?case
    unfolding d by (simp add: scan Cons.IH[OF rest])
qed

lemma is_valid_move_legal:
  assumes wf: "wf_board b" and ib: "in_bounds row col"
  shows "is_valid_move row col turn b =
           Some (Inr (sq b row col = None \<and> (\<exists>d\<in>set directions. bookended b turn row col d)))"
  unfolding is_valid_move_def
  by (simp add: cell_at_wf[OF wf ib] is_valid_move_for_bookended[OF wf])

section \<open>Evaluation on concrete boards\<close>

lemma range_list_8: "range_list 8 = [0, 1, 2, 3, 4, 5, 6, 7]"
  by (simp add: range_list_def upto.simps)

lemma initial_board_rows:
  "initial_board =
     [[None, None, None, None, None, None, None, None],
      [None, None, None, None, None, None, None, None],
      [None, None, None, None, None, None, None, None],
      [None, None, None, Some WHITE, Some BLACK, None, None, None],
      [None, None, None, Some BLACK, Some WHITE, None, None, None],
      [None, None, None, None, None, None, None, None],
      [None, None, None, None, None, None, None, None],
      [None, None, None, None, None, None, None, None]]"
  by (simp add: initial_board_def put_def empty_board_def SIZE_def numeral_eq_Suc)

lemma wf_initial_board: "wf_board initial_board"
  by (simp add: initial_board_rows wf_board_def SIZE_def)


section \<open>Counting squares\<close>

lemma squares_8: "squares = List.product [0, 1, 2, 3, 4, 5, 6, 7] [0, 1, 2, 3, 4, 5, 6, 7]"
  by (simp add: squares_def SIZE_def range_list_8)

lemma set_range_list: "set (range_list n) = {0..<n}"
  by (auto simp: range_list_def)

lemma distinct_range_list: "distinct (range_list n)"
  by (simp add: range_list_def)

lemma in_squares: "(r, c) \<in> set squares \<longleftrightarrow> in_bounds r c"
  by (auto simp: squares_def set_range_list in_bounds_def)

lemma distinct_squares: "distinct squares"
  by (simp add: squares_def distinct_product distinct_range_list)

lemma length_squares: "length squares = 64"
  by (simp add: squares_8)

lemma length_filter_split:
  "(\<forall>x\<in>set xs. P x \<longleftrightarrow> Q x \<or> R x) \<Longrightarrow> (\<forall>x\<in>set xs. \<not> (Q x \<and> R x)) \<Longrightarrow>
   length (filter P xs) = length (filter Q xs) + length (filter R xs)"
  by (induction xs) auto

lemma length_filter_one_more:
  "distinct xs \<Longrightarrow> p \<in> set xs \<Longrightarrow> \<not> F p \<Longrightarrow> F' p \<Longrightarrow>
   (\<forall>q\<in>set xs. q \<noteq> p \<longrightarrow> F' q = F q) \<Longrightarrow>
   length (filter F' xs) = Suc (length (filter F xs))"
proof (induction xs)
  case Nil
  then show ?case by simp
next
  case (Cons x xs)
  show ?case
  proof (cases "x = p")
    case True
    with Cons.prems have "p \<notin> set xs" by simp
    with Cons.prems have "filter F' xs = filter F xs"
      by (intro filter_cong) auto
    with True Cons.prems show ?thesis by simp
  next
    case False
    with Cons.prems have "length (filter F' xs) = Suc (length (filter F xs))"
      by (intro Cons.IH) auto
    moreover from False Cons.prems have "F' x = F x" by simp
    ultimately show ?thesis by simp
  qed
qed

lemma count_cells_sq:
  "wf_board b \<Longrightarrow> count_cells b v = int (length (filter (\<lambda>(r, c). sq b r c = v) squares))"
  unfolding count_cells_def
  by (intro arg_cong[where f = int] arg_cong[where f = length] filter_cong)
     (auto simp: in_squares cell_at_wf)

lemma flipped_cells_sq:
  "wf_board b \<Longrightarrow> wf_board b' \<Longrightarrow>
   flipped_cells b b' turn =
     filter (\<lambda>(r, c). sq b r c = Some (switch_user turn) \<and> sq b' r c = Some turn) squares"
  unfolding flipped_cells_def
  by (intro filter_cong) (auto simp: in_squares cell_at_wf)

lemma count_cells_total:
  assumes "wf_board b"
  shows "count_cells b (Some BLACK) + count_cells b (Some WHITE) + count_cells b None = 64"
proof -
  let ?B = "\<lambda>(r, c). sq b r c = Some BLACK"
  let ?W = "\<lambda>(r, c). sq b r c = Some WHITE"
  let ?N = "\<lambda>(r, c). sq b r c = None"
  let ?O = "\<lambda>(r, c). sq b r c \<noteq> None"
  have 1: "length (filter ?O squares) = length (filter ?B squares) + length (filter ?W squares)"
    by (rule length_filter_split) (auto, metis Color.exhaust)
  have 2: "length (filter (\<lambda>p. True) squares) = length (filter ?O squares) + length (filter ?N squares)"
    by (rule length_filter_split) auto
  from 1 2 show ?thesis
    by (simp add: count_cells_sq[OF assms] length_squares)
qed


section \<open>The iteration of \<open>take_action\<close>\<close>

lemma take_action_while_returns:
  assumes d: "(dx, dy) \<in> set directions"
  shows "\<exists>res. take_action_while b turn dx dy x y cnt = Some res"
proof (induction "steps_left dx dy x y" arbitrary: x y cnt rule: less_induct)
  case less
  show ?case
  proof (cases "in_bounds x y")
    case False
    then show ?thesis
      by (subst take_action_while.simps) (auto simp: in_bounds_def)
  next
    case True
    from steps_left_less[OF d True] less
    have IH: "\<exists>res. take_action_while b turn dx dy (x + dx) (y + dy) c = Some res" for c
      by blast
    from True have bounds: "0 \<le> x \<and> x < SIZE \<and> 0 \<le> y \<and> y < SIZE"
      by (simp add: in_bounds_def)
    show ?thesis
      by (subst take_action_while.simps) (simp add: bounds IH split: sum.split)
  qed
qed

lemma take_action_while_run:
  assumes wf: "wf_board b" and d: "(dx, dy) \<in> set directions"
  shows "0 \<le> cnt \<Longrightarrow>
         \<exists>valid n. take_action_while b turn dx dy x y cnt = Some (Inr (valid, cnt + int n)) \<and>
           (\<forall>i<n. in_bounds (x + int i * dx) (y + int i * dy) \<and>
                  sq b (x + int i * dx) (y + int i * dy) = Some (switch_user turn))"
proof (induction "steps_left dx dy x y" arbitrary: x y cnt rule: less_induct)
  case less
  show ?case
  proof (cases "in_bounds x y")
    case False
    then have "take_action_while b turn dx dy x y cnt = Some (Inr (False, cnt + int 0))"
      by (subst take_action_while.simps) (auto simp: in_bounds_def)
    then show ?thesis by blast
  next
    case True
    have bounds: "0 \<le> x \<and> x < SIZE \<and> 0 \<le> y \<and> y < SIZE"
      using True by (simp add: in_bounds_def)
    from cell_cases[of "sq b x y" turn] show ?thesis
    proof (elim disjE)
      assume "sq b x y = None"
      with bounds cell_at_wf[OF wf True]
      have "take_action_while b turn dx dy x y cnt = Some (Inr (False, cnt + int 0))"
        by (subst take_action_while.simps) simp
      then show ?thesis by blast
    next
      assume "sq b x y = Some turn"
      with bounds cell_at_wf[OF wf True]
      have "take_action_while b turn dx dy x y cnt = Some (Inr (cnt \<noteq> 0, cnt + int 0))"
        by (subst take_action_while.simps) simp
      then show ?thesis by blast
    next
      assume other: "sq b x y = Some (switch_user turn)"
      with bounds cell_at_wf[OF wf True]
      have step: "take_action_while b turn dx dy x y cnt =
            take_action_while b turn dx dy (x + dx) (y + dy) (cnt + 1)"
        by (subst take_action_while.simps) simp
      have c1: "0 \<le> cnt + 1" using less.prems by simp
      from less.hyps[OF steps_left_less[OF d True] c1]
      obtain valid n where
        res: "take_action_while b turn dx dy (x + dx) (y + dy) (cnt + 1) =
                Some (Inr (valid, cnt + 1 + int n))"
        and run: "\<forall>i<n. in_bounds (x + dx + int i * dx) (y + dy + int i * dy) \<and>
                  sq b (x + dx + int i * dx) (y + dy + int i * dy) = Some (switch_user turn)"
        by blast
      have "\<forall>i<Suc n. in_bounds (x + int i * dx) (y + int i * dy) \<and>
                  sq b (x + int i * dx) (y + int i * dy) = Some (switch_user turn)"
      proof (intro allI impI)
        fix i assume i: "i < Suc n"
        show "in_bounds (x + int i * dx) (y + int i * dy) \<and>
                  sq b (x + int i * dx) (y + int i * dy) = Some (switch_user turn)"
        proof (cases i)
          case 0
          with True other show ?thesis by simp
        next
          case (Suc j)
          with i have "j < n" by simp
          with run have "in_bounds (x + dx + int j * dx) (y + dy + int j * dy) \<and>
                  sq b (x + dx + int j * dx) (y + dy + int j * dy) = Some (switch_user turn)"
            by blast
          with Suc show ?thesis by (simp add: algebra_simps)
        qed
      qed
      moreover from step res
      have "take_action_while b turn dx dy x y cnt = Some (Inr (valid, cnt + int (Suc n)))"
        by simp
      ultimately show ?thesis by blast
    qed
  qed
qed


lemma tracks_refl: "wf_board b0 \<Longrightarrow> tracks turn b0 bc wc (b0, bc, wc)"
proof -
  assume wf: "wf_board b0"
  have "flipped_cells b0 b0 turn = []"
    unfolding flipped_cells_sq[OF wf wf] by (auto simp: filter_empty_conv)
  with wf show ?thesis by (simp add: tracks_def)
qed

lemma tracks_flip:
  assumes wf0: "wf_board b0"
    and tr: "tracks turn b0 bc0 wc0 (b, bc, wc)"
    and ib: "in_bounds r c"
    and o: "sq b r c = Some (switch_user turn)"
  shows "tracks turn b0 bc0 wc0
           (if turn = BLACK then (put b (nat r) (nat c) (Some turn), bc + 1, wc - 1)
            else (put b (nat r) (nat c) (Some turn), bc - 1, wc + 1))"
proof -
  let ?b' = "put b (nat r) (nat c) (Some turn)"
  from tr have wf: "wf_board b"
    and frame: "\<forall>(r, c)\<in>set squares. sq b r c = sq b0 r c \<or>
            (sq b0 r c = Some (switch_user turn) \<and> sq b r c = Some turn)"
    and bc: "bc = bc0 + (if turn = BLACK then 1 else - 1) * int (length (flipped_cells b0 b turn))"
    and wc: "wc = wc0 - (if turn = BLACK then 1 else - 1) * int (length (flipped_cells b0 b turn))"
    by (simp_all add: tracks_def)
  have wf': "wf_board ?b'" by (rule wf_board_put[OF wf])
  have p: "(r, c) \<in> set squares" using ib by (simp add: in_squares)
  from frame p o have o0: "sq b0 r c = Some (switch_user turn)" by auto
  have frame': "sq ?b' r' c' = sq b0 r' c' \<or>
            (sq b0 r' c' = Some (switch_user turn) \<and> sq ?b' r' c' = Some turn)"
    if q: "(r', c') \<in> set squares" for r' c'
  proof -
    from q have ib': "in_bounds r' c'" by (simp add: in_squares)
    show ?thesis
    proof (cases "r' = r \<and> c' = c")
      case True
      with o0 sq_put[OF wf ib ib'] show ?thesis by simp
    next
      case False
      with sq_put[OF wf ib ib'] have "sq ?b' r' c' = sq b r' c'" by auto
      with frame q show ?thesis by auto
    qed
  qed
  have "length (flipped_cells b0 ?b' turn) = Suc (length (flipped_cells b0 b turn))"
    unfolding flipped_cells_sq[OF wf0 wf'] flipped_cells_sq[OF wf0 wf]
  proof (rule length_filter_one_more[OF distinct_squares p])
    show "\<not> (case (r, c) of (r, c) \<Rightarrow> sq b0 r c = Some (switch_user turn) \<and> sq b r c = Some turn)"
      using o by simp
    show "case (r, c) of (r, c) \<Rightarrow> sq b0 r c = Some (switch_user turn) \<and> sq ?b' r c = Some turn"
      using o0 sq_put[OF wf ib ib] by simp
    show "\<forall>q\<in>set squares. q \<noteq> (r, c) \<longrightarrow>
           (case q of (r', c') \<Rightarrow> sq b0 r' c' = Some (switch_user turn) \<and> sq ?b' r' c' = Some turn) =
           (case q of (r', c') \<Rightarrow> sq b0 r' c' = Some (switch_user turn) \<and> sq b r' c' = Some turn)"
    proof (intro ballI impI)
      fix q assume q: "q \<in> set squares" and ne: "q \<noteq> (r, c)"
      obtain r' c' where qq: "q = (r', c')" by (cases q)
      from q qq have ib': "in_bounds r' c'" by (simp add: in_squares)
      from ne qq sq_put[OF wf ib ib'] have "sq ?b' r' c' = sq b r' c'" by auto
      then show "(case q of (r', c') \<Rightarrow> sq b0 r' c' = Some (switch_user turn) \<and> sq ?b' r' c' = Some turn) =
           (case q of (r', c') \<Rightarrow> sq b0 r' c' = Some (switch_user turn) \<and> sq b r' c' = Some turn)"
        by (simp add: qq)
    qed
  qed
  with bc wc wf' frame' show ?thesis
    by (auto simp: tracks_def)
qed

lemma line_inj:
  assumes "(dx, dy) \<in> set directions"
    and "row + dx * (i + 1) = row + dx * (j + 1)"
    and "col + dy * (i + 1) = col + dy * (j + 1)"
  shows "i = (j::int)"
  using assms by (auto simp: directions_def)


lemma take_action_flip_tracks:
  assumes wf0: "wf_board b0" and d: "(dx, dy) \<in> set directions"
  shows "tracks turn b0 bc0 wc0 (b, bc, wc) \<Longrightarrow> distinct js \<Longrightarrow>
         (\<forall>i\<in>set js. in_bounds (row + dx * (i + 1)) (col + dy * (i + 1)) \<and>
                      sq b (row + dx * (i + 1)) (col + dy * (i + 1)) = Some (switch_user turn)) \<Longrightarrow>
         \<exists>st'. take_action_flip row col turn dx dy js (b, bc, wc) = Inr st' \<and>
               tracks turn b0 bc0 wc0 st'"
proof (induction js arbitrary: b bc wc)
  case Nil
  then show ?case by simp
next
  case (Cons i js)
  let ?r = "row + dx * (i + 1)" and ?c = "col + dy * (i + 1)"
  let ?b' = "put b (nat ?r) (nat ?c) (Some turn)"
  from Cons.prems have wf: "wf_board b" by (simp add: tracks_def)
  from Cons.prems have ib: "in_bounds ?r ?c" and o: "sq b ?r ?c = Some (switch_user turn)"
    by simp_all
  have set: "set_cell b ?r ?c (Some turn) = Inr ?b'"
    by (rule set_cell_wf[OF wf ib])
  have rest: "\<forall>j\<in>set js. in_bounds (row + dx * (j + 1)) (col + dy * (j + 1)) \<and>
                sq ?b' (row + dx * (j + 1)) (col + dy * (j + 1)) = Some (switch_user turn)"
  proof
    fix j assume j: "j \<in> set js"
    with Cons.prems have ibj: "in_bounds (row + dx * (j + 1)) (col + dy * (j + 1))"
      and oj: "sq b (row + dx * (j + 1)) (col + dy * (j + 1)) = Some (switch_user turn)"
      by simp_all
    from j Cons.prems have "j \<noteq> i" by auto
    with line_inj[OF d, of row j i col]
    have "\<not> (row + dx * (j + 1) = ?r \<and> col + dy * (j + 1) = ?c)" by blast
    with sq_put[OF wf ib ibj, of "Some turn"] oj
    have "sq ?b' (row + dx * (j + 1)) (col + dy * (j + 1)) = Some (switch_user turn)"
      by auto
    with ibj show "in_bounds (row + dx * (j + 1)) (col + dy * (j + 1)) \<and>
                sq ?b' (row + dx * (j + 1)) (col + dy * (j + 1)) = Some (switch_user turn)"
      by simp
  qed
  from Cons.prems have dj: "distinct js" by simp
  show ?case
  proof (cases "turn = BLACK")
    case True
    with tracks_flip[OF wf0 Cons.prems(1) ib o]
    have "tracks turn b0 bc0 wc0 (?b', bc + 1, wc - 1)" by simp
    from Cons.IH[OF this dj rest] True set show ?thesis by simp
  next
    case False
    with tracks_flip[OF wf0 Cons.prems(1) ib o]
    have "tracks turn b0 bc0 wc0 (?b', bc - 1, wc + 1)" by simp
    from Cons.IH[OF this dj rest] False set show ?thesis by simp
  qed
qed

lemma take_action_for_tracks:
  assumes wf0: "wf_board b0"
  shows "set ds \<subseteq> set directions \<Longrightarrow> tracks turn b0 bc0 wc0 st \<Longrightarrow>
         \<exists>st'. take_action_for row col turn ds st = Some (Inr st') \<and> tracks turn b0 bc0 wc0 st'"
proof (induction ds arbitrary: st)
  case Nil
  then show ?case by simp
next
  case (Cons d ds)
  obtain dx dy where d: "d = (dx, dy)" by (cases d)
  obtain b bc wc where st: "st = (b, bc, wc)" by (cases st)
  from Cons.prems d have dir: "(dx, dy) \<in> set directions" and rest: "set ds \<subseteq> set directions"
    by auto
  from Cons.prems st have tr: "tracks turn b0 bc0 wc0 (b, bc, wc)" and wf: "wf_board b"
    by (simp_all add: tracks_def)
  from take_action_while_run[OF wf dir, of 0 turn "row + dx" "col + dy"]
  obtain valid n where
    scan: "take_action_while b turn dx dy (row + dx) (col + dy) 0 = Some (Inr (valid, int n))"
    and run: "\<forall>i<n. in_bounds (row + dx + int i * dx) (col + dy + int i * dy) \<and>
                  sq b (row + dx + int i * dx) (col + dy + int i * dy) = Some (switch_user turn)"
    by auto
  show ?case
  proof (cases valid)
    case False
    with scan Cons.IH[OF rest Cons.prems(2)] show ?thesis
      by (simp add: d st)
  next
    case True
    have cells: "\<forall>i\<in>set (range_list (int n)).
             in_bounds (row + dx * (i + 1)) (col + dy * (i + 1)) \<and>
             sq b (row + dx * (i + 1)) (col + dy * (i + 1)) = Some (switch_user turn)"
    proof
      fix i assume "i \<in> set (range_list (int n))"
      then have i: "0 \<le> i" "i < int n" by (simp_all add: set_range_list)
      then have "i = int (nat i)" "nat i < n" by simp_all
      then obtain j where j: "i = int j" "j < n" by blast
      with run have "in_bounds (row + dx + int j * dx) (col + dy + int j * dy) \<and>
                  sq b (row + dx + int j * dx) (col + dy + int j * dy) = Some (switch_user turn)"
        by blast
      moreover have "row + dx + int j * dx = row + dx * (int j + 1)"
        "col + dy + int j * dy = col + dy * (int j + 1)"
        by (simp_all add: algebra_simps)
      ultimately show "in_bounds (row + dx * (i + 1)) (col + dy * (i + 1)) \<and>
             sq b (row + dx * (i + 1)) (col + dy * (i + 1)) = Some (switch_user turn)"
        unfolding j(1) by simp
    qed
    from take_action_flip_tracks[OF wf0 dir tr distinct_range_list cells]
    obtain st' where flip: "take_action_flip row col turn dx dy (range_list (int n)) (b, bc, wc) = Inr st'"
      and tr': "tracks turn b0 bc0 wc0 st'"
      by blast
    from Cons.IH[OF rest tr'] scan True flip show ?thesis
      by (simp add: d st)
  qed
qed


lemma take_action_tracks:
  assumes wf: "wf_board b" and ib: "in_bounds row col"
  shows "\<exists>b' bc' wc'.
           take_action row col turn b bc wc tc (row, col) = Some (Inr (b', bc', wc', tc + 1)) \<and>
           tracks turn (put b (nat row) (nat col) (Some turn))
             (if turn = BLACK then bc + 1 else bc) (if turn = BLACK then wc else wc + 1)
             (b', bc', wc')"
proof -
  let ?b1 = "put b (nat row) (nat col) (Some turn)"
  let ?bc1 = "if turn = BLACK then bc + 1 else bc"
  let ?wc1 = "if turn = BLACK then wc else wc + 1"
  have wf1: "wf_board ?b1" by (rule wf_board_put[OF wf])
  have tr0: "tracks turn ?b1 ?bc1 ?wc1 (?b1, ?bc1, ?wc1)" by (rule tracks_refl[OF wf1])
  from take_action_for_tracks[OF wf1 subset_refl tr0]
  obtain st' where run: "take_action_for row col turn directions (?b1, ?bc1, ?wc1) = Some (Inr st')"
    and tr: "tracks turn ?b1 ?bc1 ?wc1 st'"
    by blast
  obtain b' bc' wc' where st': "st' = (b', bc', wc')" by (cases st')
  from run st' have "take_action row col turn b bc wc tc (row, col) = Some (Inr (b', bc', wc', tc + 1))"
    by (simp add: take_action_def set_cell_wf[OF wf ib])
  with tr st' show ?thesis by blast
qed

lemma tracks_counts:
  assumes wf0: "wf_board b0" and tr: "tracks turn b0 bc0 wc0 (b, bc, wc)"
  shows "count_cells b (Some turn) =
           count_cells b0 (Some turn) + int (length (flipped_cells b0 b turn))"
    and "count_cells b (Some (switch_user turn)) =
           count_cells b0 (Some (switch_user turn)) - int (length (flipped_cells b0 b turn))"
    and "count_cells b None = count_cells b0 None"
proof -
  from tr have wf: "wf_board b"
    and frame: "\<And>r c. (r, c) \<in> set squares \<Longrightarrow> sq b r c = sq b0 r c \<or>
            (sq b0 r c = Some (switch_user turn) \<and> sq b r c = Some turn)"
    by (auto simp: tracks_def)
  have "length (filter (\<lambda>(r, c). sq b r c = Some turn) squares) =
        length (filter (\<lambda>(r, c). sq b0 r c = Some turn) squares) +
        length (filter (\<lambda>(r, c). sq b0 r c = Some (switch_user turn) \<and> sq b r c = Some turn) squares)"
    by (rule length_filter_split) (use frame in fastforce)+
  then show "count_cells b (Some turn) =
           count_cells b0 (Some turn) + int (length (flipped_cells b0 b turn))"
    by (simp add: count_cells_sq[OF wf] count_cells_sq[OF wf0] flipped_cells_sq[OF wf0 wf])
  have "length (filter (\<lambda>(r, c). sq b0 r c = Some (switch_user turn)) squares) =
        length (filter (\<lambda>(r, c). sq b r c = Some (switch_user turn)) squares) +
        length (filter (\<lambda>(r, c). sq b0 r c = Some (switch_user turn) \<and> sq b r c = Some turn) squares)"
    by (rule length_filter_split) (use frame in fastforce)+
  then show "count_cells b (Some (switch_user turn)) =
           count_cells b0 (Some (switch_user turn)) - int (length (flipped_cells b0 b turn))"
    by (simp add: count_cells_sq[OF wf] count_cells_sq[OF wf0] flipped_cells_sq[OF wf0 wf])
  have "filter (\<lambda>(r, c). sq b r c = None) squares = filter (\<lambda>(r, c). sq b0 r c = None) squares"
    by (rule filter_cong) (use frame in fastforce)+
  then show "count_cells b None = count_cells b0 None"
    by (simp add: count_cells_sq[OF wf] count_cells_sq[OF wf0])
qed

lemma count_cells_put:
  assumes wf: "wf_board b" and ib: "in_bounds r c" and old: "sq b r c \<noteq> v" 
  shows "count_cells (put b (nat r) (nat c) v) v = count_cells b v + 1"
    and "w \<noteq> v \<Longrightarrow> sq b r c = w \<Longrightarrow> count_cells (put b (nat r) (nat c) v) w = count_cells b w - 1"
    and "w \<noteq> v \<Longrightarrow> sq b r c \<noteq> w \<Longrightarrow> count_cells (put b (nat r) (nat c) v) w = count_cells b w"
proof -
  let ?b' = "put b (nat r) (nat c) v"
  have wf': "wf_board ?b'" by (rule wf_board_put[OF wf])
  have p: "(r, c) \<in> set squares" using ib by (simp add: in_squares)
  have same: "sq ?b' r' c' = sq b r' c'" if "(r', c') \<in> set squares" "(r', c') \<noteq> (r, c)" for r' c'
    using that sq_put[OF wf ib, of r' c' v] by (auto simp: in_squares)
  have here: "sq ?b' r c = v" using sq_put[OF wf ib ib] by simp
  have "length (filter (\<lambda>(r, c). sq ?b' r c = v) squares) =
        Suc (length (filter (\<lambda>(r, c). sq b r c = v) squares))"
    by (rule length_filter_one_more[OF distinct_squares p]) (use old here same in auto)
  then show "count_cells ?b' v = count_cells b v + 1"
    by (simp add: count_cells_sq[OF wf] count_cells_sq[OF wf'])
  {
    assume w: "w \<noteq> v" "sq b r c = w"
    have "length (filter (\<lambda>(r, c). sq b r c = w) squares) =
        Suc (length (filter (\<lambda>(r, c). sq ?b' r c = w) squares))"
      by (rule length_filter_one_more[OF distinct_squares p]) (use w here same in auto)
    then show "count_cells ?b' w = count_cells b w - 1"
      by (simp add: count_cells_sq[OF wf] count_cells_sq[OF wf'])
  }
  {
    assume w: "w \<noteq> v" "sq b r c \<noteq> w"
    have "filter (\<lambda>(r, c). sq ?b' r c = w) squares = filter (\<lambda>(r, c). sq b r c = w) squares"
    proof (rule filter_cong[OF refl])
      fix q assume q: "q \<in> set squares"
      obtain r' c' where qq: "q = (r', c')" by (cases q)
      show "(case q of (r, c) \<Rightarrow> sq ?b' r c = w) = (case q of (r, c) \<Rightarrow> sq b r c = w)"
        using w here same[of r' c'] q qq by (cases "(r', c') = (r, c)") auto
    qed
    then show "count_cells ?b' w = count_cells b w"
      by (simp add: count_cells_sq[OF wf] count_cells_sq[OF wf'])
  }
qed

lemma flipped_cells_put:
  assumes wf: "wf_board b" and wf': "wf_board b'" and ib: "in_bounds r c"
    and e: "sq b r c = None"
  shows "flipped_cells (put b (nat r) (nat c) (Some turn)) b' turn = flipped_cells b b' turn"
proof -
  let ?b1 = "put b (nat r) (nat c) (Some turn)"
  have wf1: "wf_board ?b1" by (rule wf_board_put[OF wf])
  show ?thesis
    unfolding flipped_cells_sq[OF wf1 wf'] flipped_cells_sq[OF wf wf']
  proof (rule filter_cong[OF refl])
    fix q assume q: "q \<in> set squares"
    obtain r' c' where qq: "q = (r', c')" by (cases q)
    from q qq have ib': "in_bounds r' c'" by (simp add: in_squares)
    show "(case q of (r, c) \<Rightarrow> sq ?b1 r c = Some (switch_user turn) \<and> sq b' r c = Some turn) =
          (case q of (r, c) \<Rightarrow> sq b r c = Some (switch_user turn) \<and> sq b' r c = Some turn)"
      using e sq_put[OF wf ib ib', of "Some turn"] qq by auto
  qed
qed


lemma take_action_effect:
  assumes wf: "wf_board b" and ib: "in_bounds row col" and e: "sq b row col = None"
  shows "\<exists>b' bc' wc' k.
           take_action row col turn b bc wc tc (row, col) = Some (Inr (b', bc', wc', tc + 1)) \<and>
           wf_board b' \<and>
           k = int (length (flipped_cells b b' turn)) \<and>
           bc' = bc + (if turn = BLACK then 1 + k else - k) \<and>
           wc' = wc + (if turn = BLACK then - k else 1 + k) \<and>
           count_cells b' (Some turn) = count_cells b (Some turn) + 1 + k \<and>
           count_cells b' (Some (switch_user turn)) = count_cells b (Some (switch_user turn)) - k \<and>
           count_cells b' None = count_cells b None - 1"
proof -
  let ?b1 = "put b (nat row) (nat col) (Some turn)"
  have wf1: "wf_board ?b1" by (rule wf_board_put[OF wf])
  from take_action_tracks[OF wf ib, of turn bc wc tc]
  obtain b' bc' wc' where
    run: "take_action row col turn b bc wc tc (row, col) = Some (Inr (b', bc', wc', tc + 1))"
    and tr: "tracks turn ?b1 (if turn = BLACK then bc + 1 else bc)
               (if turn = BLACK then wc else wc + 1) (b', bc', wc')"
    by blast
  from tr have wf': "wf_board b'" by (simp add: tracks_def)
  let ?k = "int (length (flipped_cells b b' turn))"
  have k: "int (length (flipped_cells ?b1 b' turn)) = ?k"
    by (simp add: flipped_cells_put[OF wf wf' ib e])
  from tr k have bc': "bc' = bc + (if turn = BLACK then 1 + ?k else - ?k)"
    and wc': "wc' = wc + (if turn = BLACK then - ?k else 1 + ?k)"
    by (simp_all add: tracks_def)
  have ne: "sq b row col \<noteq> Some turn" "None \<noteq> Some turn" "Some (switch_user turn) \<noteq> Some turn"
    "sq b row col \<noteq> Some (switch_user turn)"
    using e by simp_all
  from tracks_counts[OF wf1 tr] k
    count_cells_put(1)[OF wf ib ne(1)]
    count_cells_put(2)[OF wf ib ne(1) ne(2) e]
    count_cells_put(3)[OF wf ib ne(1) ne(3) ne(4)]
  have "count_cells b' (Some turn) = count_cells b (Some turn) + 1 + ?k"
    "count_cells b' (Some (switch_user turn)) = count_cells b (Some (switch_user turn)) - ?k"
    "count_cells b' None = count_cells b None - 1"
    by simp_all
  with run wf' bc' wc' show ?thesis by blast
qed

lemma is_valid_move_True_empty:
  assumes "wf_board b" "in_bounds row col" "is_valid_move row col turn b = Some (Inr True)"
  shows "sq b row col = None"
  using is_valid_move_legal[OF assms(1,2), of turn] assms(3) by simp

section \<open>The body of the game loop\<close>

lemma parse_coordinate_in_bounds:
  "parse_coordinate str = Inr (r, c) \<Longrightarrow> in_bounds r c"
  by (auto simp: parse_coordinate_def Let_def in_bounds_def split: if_splits)

lemma check_end_status_wipeout:
  "b = 0 \<or> w = 0 \<Longrightarrow> check_end_status turn b w t = (True, [OneLose])"
  by (simp add: check_end_status_def)

text \<open>What the body of the loop does in each of its branches.\<close>

lemma play_game_body_pass:
  assumes "next_steps (s_turn s) (s_board s) = Some (Inr [])"
  shows "play_game_body s =
           Some (Continue (s\<lparr>s_turn := switch_user (s_turn s),
                              s_output := s_output s @ [NoValidMove]\<rparr>))"
  using assms by (simp add: play_game_body_def)

lemma play_game_body_rejected:
  assumes "next_steps (s_turn s) (s_board s) = Some (Inr cands)" and "cands \<noteq> []"
    and "s_input s = str # rest"
    and "parse_coordinate str = Inr (r, c)"
    and "is_valid_move r c (s_turn s) (s_board s) = Some (Inr False)"
  shows "play_game_body s =
           Some (Continue (s\<lparr>s_input := rest,
              s_output := s_output s @
                [Score (s_b_cnt s) (s_w_cnt s) (s_t_cnt s), ShowBoard (s_board s) cands,
                 EnterMove (s_turn s), NotValidMove]\<rparr>))"
  using assms by (simp add: play_game_body_def)

lemma play_game_body_move:
  assumes "next_steps (s_turn s) (s_board s) = Some (Inr cands)" and "cands \<noteq> []"
    and "s_input s = str # rest"
    and "parse_coordinate str = Inr (r, c)"
    and "is_valid_move r c (s_turn s) (s_board s) = Some (Inr True)"
    and "take_action r c (s_turn s) (s_board s) (s_b_cnt s) (s_w_cnt s) (s_t_cnt s) (r, c) =
           Some (Inr (board', b', w', t'))"
  shows "play_game_body s =
           (if fst (check_end_status (s_turn s) b' w' t') then
              Some (Break (s\<lparr>s_board := board', s_b_cnt := b', s_w_cnt := w', s_t_cnt := t',
                 s_input := rest,
                 s_output := s_output s @
                   [Score (s_b_cnt s) (s_w_cnt s) (s_t_cnt s), ShowBoard (s_board s) cands,
                    EnterMove (s_turn s)] @ snd (check_end_status (s_turn s) b' w' t') @
                   [GameEnd, Score b' w' t']\<rparr>))
            else
              Some (Continue (s\<lparr>s_board := board', s_turn := switch_user (s_turn s),
                 s_b_cnt := b', s_w_cnt := w', s_t_cnt := t',
                 s_input := rest,
                 s_output := s_output s @
                   [Score (s_b_cnt s) (s_w_cnt s) (s_t_cnt s), ShowBoard (s_board s) cands,
                    EnterMove (s_turn s)] @ snd (check_end_status (s_turn s) b' w' t')\<rparr>)))"
  using assms by (simp add: play_game_body_def)


lemma play_game_body_cases:
  assumes "play_game_body s = Some (Continue s') \<or> play_game_body s = Some (Break s')"
  shows "(s_board s' = s_board s \<and> s_b_cnt s' = s_b_cnt s \<and> s_w_cnt s' = s_w_cnt s \<and>
          s_t_cnt s' = s_t_cnt s) \<or>
         (\<exists>str rest r c.
            s_input s = str # rest \<and> parse_coordinate str = Inr (r, c) \<and>
            is_valid_move r c (s_turn s) (s_board s) = Some (Inr True) \<and>
            take_action r c (s_turn s) (s_board s) (s_b_cnt s) (s_w_cnt s) (s_t_cnt s) (r, c) =
              Some (Inr (s_board s', s_b_cnt s', s_w_cnt s', s_t_cnt s')))"
  using assms unfolding play_game_body_def Let_def
  by (auto split: option.splits sum.splits list.splits if_splits prod.splits)

lemma counts_ok_step:
  assumes ok: "counts_ok s"
    and step: "play_game_body s = Some (Continue s') \<or> play_game_body s = Some (Break s')"
  shows "counts_ok s'"
proof -
  from play_game_body_cases[OF step] show ?thesis
  proof (elim disjE exE conjE)
    assume "s_board s' = s_board s" "s_b_cnt s' = s_b_cnt s" "s_w_cnt s' = s_w_cnt s"
      "s_t_cnt s' = s_t_cnt s"
    with ok show ?thesis by (simp add: counts_ok_def)
  next
    fix str rest r c
    assume p: "parse_coordinate str = Inr (r, c)"
      and v: "is_valid_move r c (s_turn s) (s_board s) = Some (Inr True)"
      and t: "take_action r c (s_turn s) (s_board s) (s_b_cnt s) (s_w_cnt s) (s_t_cnt s) (r, c) =
              Some (Inr (s_board s', s_b_cnt s', s_w_cnt s', s_t_cnt s'))"
    from ok have wf: "wf_board (s_board s)" by (simp add: counts_ok_def)
    have ib: "in_bounds r c" by (rule parse_coordinate_in_bounds[OF p])
    have e: "sq (s_board s) r c = None" by (rule is_valid_move_True_empty[OF wf ib v])
    from take_action_effect[OF wf ib e, of "s_turn s" "s_b_cnt s" "s_w_cnt s" "s_t_cnt s"] t
    obtain k where wf': "wf_board (s_board s')"
      and bc: "s_b_cnt s' = s_b_cnt s + (if s_turn s = BLACK then 1 + k else - k)"
      and wc: "s_w_cnt s' = s_w_cnt s + (if s_turn s = BLACK then - k else 1 + k)"
      and tc: "s_t_cnt s' = s_t_cnt s + 1"
      and own: "count_cells (s_board s') (Some (s_turn s)) =
                  count_cells (s_board s) (Some (s_turn s)) + 1 + k"
      and other: "count_cells (s_board s') (Some (switch_user (s_turn s))) =
                  count_cells (s_board s) (Some (switch_user (s_turn s))) - k"
      by auto
    from ok wf' bc wc tc own other show ?thesis
      by (cases "s_turn s") (simp_all add: counts_ok_def switch_user_def)
  qed
qed

lemma count_cells_initial:
  "count_cells initial_board (Some BLACK) = 2" "count_cells initial_board (Some WHITE) = 2"
  unfolding initial_board_rows
  by (simp_all add: count_cells_def squares_8 cell_at_def py_index_def)

lemma counts_ok_initial: "counts_ok (initial_game lines)"
  by (simp add: counts_ok_def initial_game_def wf_initial_board count_cells_initial)

lemma reachable_counts_ok: "reachable s \<Longrightarrow> counts_ok s"
  by (induction rule: reachable.induct) (auto intro: counts_ok_initial counts_ok_step)


lemma passes_loop:
  "passes n s = Some (Continue s') \<Longrightarrow> play_game_loop s = play_game_loop s'"
proof (induction n arbitrary: s)
  case 0
  then show ?case by simp
next
  case (Suc n)
  from Suc.prems obtain s1 where b: "play_game_body s = Some (Continue s1)"
    and r: "passes n s1 = Some (Continue s')"
    by (auto split: option.splits outcome.splits)
  from b have "play_game_loop s = play_game_loop s1"
    by (subst play_game_loop.simps) simp
  with Suc.IH[OF r] show ?case by simp
qed

lemma play_game_loop_stuck:
  assumes nb: "next_steps BLACK b = Some (Inr [])" and nw: "next_steps WHITE b = Some (Inr [])"
  shows "s_board s = b \<Longrightarrow> play_game_loop s = None"
proof (rule ccontr)
  assume sb: "s_board s = b" and "play_game_loop s \<noteq> None"
  then obtain y where y: "play_game_loop s = Some y" by auto
  have "s_board s \<noteq> b"
  proof (rule play_game_loop.raw_induct[where P = "\<lambda>s y. s_board s \<noteq> b", OF _ y])
    fix f :: "game \<Rightarrow> (py_error + game) option" and s res
    assume IH: "\<And>s y. f s = Some y \<Longrightarrow> s_board s \<noteq> b"
      and body: "(case play_game_body s of None \<Rightarrow> None
                  | Some (Continue s') \<Rightarrow> f s'
                  | Some (Break s') \<Rightarrow> Some (Inr s')
                  | Some (Raise e) \<Rightarrow> Some (Inl e)) = Some res"
    show "s_board s \<noteq> b"
    proof
      assume eq: "s_board s = b"
      with nb nw have "next_steps (s_turn s) (s_board s) = Some (Inr [])"
        by (cases "s_turn s") simp_all
      from play_game_body_pass[OF this] body
      have "f (s\<lparr>s_turn := switch_user (s_turn s), s_output := s_output s @ [NoValidMove]\<rparr>) = Some res"
        by simp
      from IH[OF this] eq show False by simp
    qed
  qed
  with sb show False by simp
qed

lemma passes_reachable:
  "reachable s \<Longrightarrow> passes n s = Some (Continue s') \<Longrightarrow> reachable s'"
proof (induction n arbitrary: s)
  case 0
  then show ?case by simp
next
  case (Suc n)
  from Suc.prems(2) obtain s1 where b: "play_game_body s = Some (Continue s1)"
    and r: "passes n s1 = Some (Continue s')"
    by (auto split: option.splits outcome.splits)
  from Suc.IH[OF reachable.continue[OF Suc.prems(1) b] r] show ?case .
qed

section \<open>Code equations for evaluation\<close>

declare is_valid_move_while.simps [code]
declare take_action_while.simps [code]
declare play_game_loop.simps [code]

section \<open>The properties\<close>

text \<open>
  C1. On a board of 8 by 8 squares and for a target on the board, \<open>is_valid_move\<close>
  returns \<open>False\<close> when the target is not empty; when it is empty, it returns \<open>True\<close>
  exactly when one of the eight directions holds, from the square next to the target, one
  or more squares of the other colour followed by a square of the mover's colour, all on
  the board.
\<close>

theorem is_valid_move_spec:
  assumes "wf_board board" and "in_bounds row col"
  shows "(cell_at board row col \<noteq> Inr None \<longrightarrow>
            is_valid_move row col turn board = Some (Inr False)) \<and>
         (cell_at board row col = Inr None \<longrightarrow>
            is_valid_move row col turn board =
              Some (Inr (\<exists>d\<in>set directions. bookended board turn row col d)))"
  using is_valid_move_legal[OF assms, of turn] cell_at_wf[OF assms] by simp

theorem is_valid_move_spec_witness:
  "wf_board initial_board \<and> in_bounds 2 3 \<and> in_bounds 3 3 \<and>
   cell_at initial_board 2 3 = Inr None \<and>
   bookended initial_board BLACK 2 3 (1, 0) \<and>
   is_valid_move 2 3 BLACK initial_board = Some (Inr True) \<and>
   cell_at initial_board 3 3 \<noteq> Inr None \<and>
   is_valid_move 3 3 BLACK initial_board = Some (Inr False)"
proof -
  have ib: "in_bounds 2 3" "in_bounds 3 3"
    by (simp_all add: in_bounds_def SIZE_def)
  have e: "cell_at initial_board 2 3 = Inr None" "cell_at initial_board 3 3 \<noteq> Inr None"
    by (simp_all add: initial_board_rows cell_at_def py_index_def)
  have "cell_at initial_board 3 3 = Inr (Some (switch_user BLACK))"
       "cell_at initial_board 4 3 = Inr (Some BLACK)"
    by (simp_all add: initial_board_rows cell_at_def py_index_def switch_user_def)
  then have bk: "bookended initial_board BLACK 2 3 (1, 0)"
    unfolding bookended_def by (intro exI[of _ 1]) (simp add: in_bounds_def SIZE_def)
  then have ex: "\<exists>d\<in>set directions. bookended initial_board BLACK 2 3 d"
    by (auto simp: directions_def)
  from is_valid_move_spec[OF wf_initial_board ib(1), of BLACK] e(1) ex
  have "is_valid_move 2 3 BLACK initial_board = Some (Inr True)"
    by simp
  moreover from is_valid_move_spec[OF wf_initial_board ib(2), of BLACK] e(2)
  have "is_valid_move 3 3 BLACK initial_board = Some (Inr False)"
    by simp
  ultimately show ?thesis
    using wf_initial_board ib e bk by simp
qed

text \<open>
  C4. On the opening board, with Black at (3,4) and (4,3) and White at (3,3) and (4,4),
  \<open>next_steps\<close> for Black returns the four squares (2,3), (3,2), (4,5) and (5,4), in
  row-major order, and nothing else.
\<close>

theorem next_steps_opening:
  "next_steps BLACK initial_board = Some (Inr [(2, 3), (3, 2), (4, 5), (5, 4)]) \<and>
   cell_at initial_board 3 4 = Inr (Some BLACK) \<and>
   cell_at initial_board 4 3 = Inr (Some BLACK) \<and>
   cell_at initial_board 3 3 = Inr (Some WHITE) \<and>
   cell_at initial_board 4 4 = Inr (Some WHITE)"
  by code_simp

text \<open>
  C5. In the position of the docstring's example, Black's move g6, which is row 5 and
  column 6, puts a black piece there and turns the white pieces at f5, c6, d6, e6 and f6
  to black: the squares that change are the target and these five, and no other.
\<close>

theorem take_action_midgame_g6:
  "parse_coordinate ''g6'' = Inr (5, 6) \<and>
   take_action 5 6 BLACK midgame_board 7 11 18 (5, 6) = Some (Inr (midgame_after, 13, 6, 19)) \<and>
   changed_cells midgame_board midgame_after = [(4, 5), (5, 2), (5, 3), (5, 4), (5, 5), (5, 6)] \<and>
   map (\<lambda>(r, c). cell_at midgame_board r c) [(4, 5), (5, 2), (5, 3), (5, 4), (5, 5), (5, 6)] =
     [Inr (Some WHITE), Inr (Some WHITE), Inr (Some WHITE), Inr (Some WHITE), Inr (Some WHITE),
      Inr None] \<and>
   map (\<lambda>(r, c). cell_at midgame_after r c) [(4, 5), (5, 2), (5, 3), (5, 4), (5, 5), (5, 6)] =
     [Inr (Some BLACK), Inr (Some BLACK), Inr (Some BLACK), Inr (Some BLACK), Inr (Some BLACK),
      Inr (Some BLACK)]"
  by code_simp

text \<open>
  C6. For a legal move on a board of 8 by 8 squares, \<open>take_action\<close> returns; with \<open>k\<close>
  the number of squares turned, the mover's counter goes up by \<open>1 + k\<close>, the other
  counter goes down by \<open>k\<close> and the total goes up by 1; a recount of the board changes in
  the same way, so counters that agreed with the board before the move agree with it after.
\<close>

theorem take_action_counts:
  assumes "wf_board board" and "in_bounds row col"
    and "is_valid_move row col turn board = Some (Inr True)"
  shows "\<exists>board' b' w' t' k.
           take_action row col turn board b_cnt w_cnt t_cnt (row, col) =
             Some (Inr (board', b', w', t')) \<and>
           k = int (length (flipped_cells board board' turn)) \<and>
           b' = b_cnt + (if turn = BLACK then 1 + k else - k) \<and>
           w' = w_cnt + (if turn = WHITE then 1 + k else - k) \<and>
           t' = t_cnt + 1 \<and>
           count_cells board' (Some turn) = count_cells board (Some turn) + 1 + k \<and>
           count_cells board' (Some (switch_user turn)) =
             count_cells board (Some (switch_user turn)) - k \<and>
           count_cells board' (Some BLACK) + count_cells board' (Some WHITE) =
             count_cells board (Some BLACK) + count_cells board (Some WHITE) + 1 \<and>
           (b_cnt = count_cells board (Some BLACK) \<and> w_cnt = count_cells board (Some WHITE) \<and>
            t_cnt = count_cells board (Some BLACK) + count_cells board (Some WHITE) \<longrightarrow>
              b' = count_cells board' (Some BLACK) \<and> w' = count_cells board' (Some WHITE) \<and>
              t' = count_cells board' (Some BLACK) + count_cells board' (Some WHITE))"
proof -
  have e: "sq board row col = None"
    by (rule is_valid_move_True_empty[OF assms])
  from take_action_effect[OF assms(1,2) e, of turn b_cnt w_cnt t_cnt]
  obtain board' b' w' k where
    run: "take_action row col turn board b_cnt w_cnt t_cnt (row, col) =
            Some (Inr (board', b', w', t_cnt + 1))"
    and k: "k = int (length (flipped_cells board board' turn))"
    and b': "b' = b_cnt + (if turn = BLACK then 1 + k else - k)"
    and w': "w' = w_cnt + (if turn = BLACK then - k else 1 + k)"
    and own: "count_cells board' (Some turn) = count_cells board (Some turn) + 1 + k"
    and other: "count_cells board' (Some (switch_user turn)) =
                  count_cells board (Some (switch_user turn)) - k"
    by blast
  have w'': "w' = w_cnt + (if turn = WHITE then 1 + k else - k)"
    using w' by (cases turn) simp_all
  have sum: "count_cells board' (Some BLACK) + count_cells board' (Some WHITE) =
             count_cells board (Some BLACK) + count_cells board (Some WHITE) + 1"
    using own other by (cases turn) (simp_all add: switch_user_def)
  have agree: "b_cnt = count_cells board (Some BLACK) \<and> w_cnt = count_cells board (Some WHITE) \<and>
            t_cnt = count_cells board (Some BLACK) + count_cells board (Some WHITE) \<longrightarrow>
              b' = count_cells board' (Some BLACK) \<and> w' = count_cells board' (Some WHITE) \<and>
              t_cnt + 1 = count_cells board' (Some BLACK) + count_cells board' (Some WHITE)"
    using own other b' w' by (cases turn) (simp_all add: switch_user_def)
  from run k b' w'' own other sum agree show ?thesis
    by blast
qed

theorem take_action_counts_witness:
  "wf_board midgame_board \<and> in_bounds 5 6 \<and>
   is_valid_move 5 6 BLACK midgame_board = Some (Inr True) \<and>
   take_action 5 6 BLACK midgame_board 7 11 18 (5, 6) = Some (Inr (midgame_after, 13, 6, 19)) \<and>
   int (length (flipped_cells midgame_board midgame_after BLACK)) = 5 \<and>
   count_cells midgame_board (Some BLACK) = 7 \<and> count_cells midgame_board (Some WHITE) = 11 \<and>
   count_cells midgame_after (Some BLACK) = 13 \<and> count_cells midgame_after (Some WHITE) = 6"
proof -
  have wf: "wf_board midgame_board" by code_simp
  have ib: "in_bounds 5 6" by code_simp
  have v: "is_valid_move 5 6 BLACK midgame_board = Some (Inr True)" by code_simp
  have run: "take_action 5 6 BLACK midgame_board 7 11 18 (5, 6) =
               Some (Inr (midgame_after, 13, 6, 19))"
    by code_simp
  have c: "count_cells midgame_board (Some BLACK) = 7"
    "count_cells midgame_board (Some WHITE) = 11"
    by code_simp+
  from take_action_counts[OF wf ib v, of 7 11 18] run c
  have "int (length (flipped_cells midgame_board midgame_after BLACK)) = 5 \<and>
        count_cells midgame_after (Some BLACK) = 13 \<and> count_cells midgame_after (Some WHITE) = 6"
    by (auto simp: switch_user_def)
  with wf ib v run c show ?thesis by simp
qed

text \<open>
  C9. The line scans end. In each of the eight directions, a step from a square on the
  board lowers the number of steps left on the board, a scan that is off the board stops
  at once, and either \<open>while\<close> loop returns from every start; so on a board of 8 by 8
  squares and for a target on the board, \<open>is_valid_move\<close> and \<open>take_action\<close> return a
  value and raise nothing.
\<close>

theorem line_scans_terminate:
  assumes "wf_board board" and "in_bounds row col"
  shows "(\<forall>(dx, dy)\<in>set directions. \<forall>x y cnt.
            (in_bounds x y \<longrightarrow> steps_left dx dy (x + dx) (y + dy) < steps_left dx dy x y) \<and>
            (\<not> in_bounds x y \<longrightarrow>
               is_valid_move_while board turn dx dy x y cnt = Some (Inr False) \<and>
               take_action_while board turn dx dy x y cnt = Some (Inr (False, cnt))) \<and>
            (\<exists>res. is_valid_move_while board turn dx dy x y cnt = Some res) \<and>
            (\<exists>res. take_action_while board turn dx dy x y cnt = Some res)) \<and>
         (\<exists>ok. is_valid_move row col turn board = Some (Inr ok)) \<and>
         (\<exists>res. take_action row col turn board b_cnt w_cnt t_cnt (row, col) = Some (Inr res))"
proof (intro conjI)
  show "\<forall>(dx, dy)\<in>set directions. \<forall>x y cnt.
            (in_bounds x y \<longrightarrow> steps_left dx dy (x + dx) (y + dy) < steps_left dx dy x y) \<and>
            (\<not> in_bounds x y \<longrightarrow>
               is_valid_move_while board turn dx dy x y cnt = Some (Inr False) \<and>
               take_action_while board turn dx dy x y cnt = Some (Inr (False, cnt))) \<and>
            (\<exists>res. is_valid_move_while board turn dx dy x y cnt = Some res) \<and>
            (\<exists>res. take_action_while board turn dx dy x y cnt = Some res)"
  proof (intro ballI)
    fix d assume d: "d \<in> set directions"
    obtain dx dy where dd: "d = (dx, dy)" by (cases d)
    have off: "is_valid_move_while board turn dx dy x y cnt = Some (Inr False) \<and>
               take_action_while board turn dx dy x y cnt = Some (Inr (False, cnt))"
      if "\<not> in_bounds x y" for x y cnt
      using that
      by (subst is_valid_move_while.simps, subst take_action_while.simps)
         (auto simp: in_bounds_def)
    from d dd steps_left_less[of dx dy] off
      is_valid_move_while_returns[of dx dy board turn]
      take_action_while_returns[of dx dy board turn]
    show "case d of (dx, dy) \<Rightarrow> \<forall>x y cnt.
            (in_bounds x y \<longrightarrow> steps_left dx dy (x + dx) (y + dy) < steps_left dx dy x y) \<and>
            (\<not> in_bounds x y \<longrightarrow>
               is_valid_move_while board turn dx dy x y cnt = Some (Inr False) \<and>
               take_action_while board turn dx dy x y cnt = Some (Inr (False, cnt))) \<and>
            (\<exists>res. is_valid_move_while board turn dx dy x y cnt = Some res) \<and>
            (\<exists>res. take_action_while board turn dx dy x y cnt = Some res)"
      by simp
  qed
  show "\<exists>ok. is_valid_move row col turn board = Some (Inr ok)"
    using is_valid_move_legal[OF assms, of turn] by blast
  show "\<exists>res. take_action row col turn board b_cnt w_cnt t_cnt (row, col) = Some (Inr res)"
    using take_action_tracks[OF assms, of turn b_cnt w_cnt t_cnt] by blast
qed

theorem line_scans_terminate_witness:
  "wf_board midgame_board \<and> in_bounds 5 6 \<and> (1, 0) \<in> set directions \<and> in_bounds 7 6 \<and>
   \<not> in_bounds 8 6 \<and>
   steps_left 1 0 (7 + 1) (6 + 0) < steps_left 1 0 7 6 \<and>
   is_valid_move_while midgame_board BLACK 1 0 8 6 2 = Some (Inr False) \<and>
   (\<exists>res. is_valid_move_while midgame_board BLACK 1 0 6 6 0 = Some res) \<and>
   (\<exists>res. take_action_while midgame_board BLACK 1 0 6 6 0 = Some res) \<and>
   (\<exists>ok. is_valid_move 5 6 BLACK midgame_board = Some (Inr ok)) \<and>
   (\<exists>res. take_action 5 6 BLACK midgame_board 7 11 18 (5, 6) = Some (Inr res))"
proof -
  have wf: "wf_board midgame_board" by code_simp
  have ib: "in_bounds 5 6" "in_bounds 7 6" "\<not> in_bounds 8 6" by code_simp+
  have d: "(1, 0) \<in> set directions" by (simp add: directions_def)
  from line_scans_terminate[OF wf ib(1), of BLACK 7 11 18] d ib(2,3)
  show ?thesis
    using wf ib(1) by fastforce
qed

text \<open>
  C7. In every state that a game reaches, from the opening position through passes,
  rejected input and applied moves, the black counter, the white counter and the number of
  empty squares add up to 64; the counters are those of a recount of the board, and the
  total counter is the sum of the other two.
\<close>

theorem count_invariant:
  assumes "reachable s"
  shows "s_b_cnt s + s_w_cnt s + count_cells (s_board s) None = 64 \<and>
         s_b_cnt s + s_w_cnt s + (SIZE * SIZE - s_t_cnt s) = 64 \<and>
         s_b_cnt s = count_cells (s_board s) (Some BLACK) \<and>
         s_w_cnt s = count_cells (s_board s) (Some WHITE)"
proof -
  from reachable_counts_ok[OF assms]
  have wf: "wf_board (s_board s)"
    and b: "s_b_cnt s = count_cells (s_board s) (Some BLACK)"
    and w: "s_w_cnt s = count_cells (s_board s) (Some WHITE)"
    and t: "s_t_cnt s = s_b_cnt s + s_w_cnt s"
    by (simp_all add: counts_ok_def)
  from count_cells_total[OF wf] b w t show ?thesis
    by (simp add: SIZE_def)
qed

theorem count_invariant_witness:
  "\<exists>s. passes 1 (initial_game [''d3'']) = Some (Continue s) \<and> reachable s \<and>
       s_b_cnt s = 4 \<and> s_w_cnt s = 1 \<and> s_t_cnt s = 5 \<and>
       count_cells (s_board s) None = 59 \<and>
       s_b_cnt s + s_w_cnt s + count_cells (s_board s) None = 64"
proof -
  have "(case passes 1 (initial_game [''d3'']) of
           Some (Continue s) \<Rightarrow> s_b_cnt s = 4 \<and> s_w_cnt s = 1 \<and> s_t_cnt s = 5
         | _ \<Rightarrow> False)"
    by code_simp
  then obtain s where p: "passes 1 (initial_game [''d3'']) = Some (Continue s)"
    and c: "s_b_cnt s = 4" "s_w_cnt s = 1" "s_t_cnt s = 5"
    by (auto split: option.splits outcome.splits)
  have r: "reachable s"
    by (rule passes_reachable[OF reachable.start p])
  from count_invariant[OF r] c p r show ?thesis
    by auto
qed

text \<open>
  C8. When the colour to move has a legal move and the line read names a square on the
  board that is occupied, or from which no direction holds a bookended line, the body of
  the loop prints the rejection and continues with the same board, the same counters and
  the same colour to move; only the line is consumed.
\<close>

theorem illegal_move_rejected:
  assumes "wf_board (s_board s)"
    and "next_steps (s_turn s) (s_board s) = Some (Inr cands)" and "cands \<noteq> []"
    and "s_input s = str # rest"
    and "parse_coordinate str = Inr (r, c)"
    and "cell_at (s_board s) r c \<noteq> Inr None \<or>
         \<not> (\<exists>d\<in>set directions. bookended (s_board s) (s_turn s) r c d)"
  shows "in_bounds r c \<and>
         is_valid_move r c (s_turn s) (s_board s) = Some (Inr False) \<and>
         (\<exists>s'. play_game_body s = Some (Continue s') \<and>
            s_board s' = s_board s \<and> s_turn s' = s_turn s \<and>
            s_b_cnt s' = s_b_cnt s \<and> s_w_cnt s' = s_w_cnt s \<and> s_t_cnt s' = s_t_cnt s \<and>
            s_input s' = rest \<and>
            s_output s' = s_output s @
              [Score (s_b_cnt s) (s_w_cnt s) (s_t_cnt s), ShowBoard (s_board s) cands,
               EnterMove (s_turn s), NotValidMove])"
proof -
  have ib: "in_bounds r c"
    by (rule parse_coordinate_in_bounds[OF assms(5)])
  from assms(6) is_valid_move_legal[OF assms(1) ib, of "s_turn s"] cell_at_wf[OF assms(1) ib]
  have v: "is_valid_move r c (s_turn s) (s_board s) = Some (Inr False)"
    by auto
  from play_game_body_rejected[OF assms(2-5) v] ib v show ?thesis
    by simp
qed

theorem illegal_move_rejected_witness:
  "wf_board (s_board (initial_game [''d4''])) \<and>
   next_steps BLACK initial_board = Some (Inr [(2, 3), (3, 2), (4, 5), (5, 4)]) \<and>
   parse_coordinate ''d4'' = Inr (3, 3) \<and>
   cell_at initial_board 3 3 \<noteq> Inr None \<and>
   is_valid_move 3 3 BLACK initial_board = Some (Inr False) \<and>
   play_game_body (initial_game [''d4'']) =
     Some (Continue ((initial_game [])\<lparr>s_output :=
        [Score 2 2 4, ShowBoard initial_board [(2, 3), (3, 2), (4, 5), (5, 4)],
         EnterMove BLACK, NotValidMove]\<rparr>))"
proof -
  let ?s = "initial_game [''d4'']"
  have wf: "wf_board (s_board ?s)"
    by (simp add: initial_game_def wf_initial_board)
  have n: "next_steps (s_turn ?s) (s_board ?s) = Some (Inr [(2, 3), (3, 2), (4, 5), (5, 4)])"
    by code_simp
  have ne: "[(2, 3), (3, 2), (4, 5), (5, 4)] \<noteq> ([] :: Coordinate list)"
    by simp
  have i: "s_input ?s = ''d4'' # []"
    by (simp add: initial_game_def)
  have p: "parse_coordinate ''d4'' = Inr (3, 3)"
    by code_simp
  have occ: "cell_at initial_board 3 3 \<noteq> Inr None"
    by code_simp
  then have ill: "cell_at (s_board ?s) 3 3 \<noteq> Inr None \<or>
         \<not> (\<exists>d\<in>set directions. bookended (s_board ?s) (s_turn ?s) 3 3 d)"
    by (simp add: initial_game_def)
  from illegal_move_rejected[OF wf n ne i p ill] wf n p occ show ?thesis
    by (auto simp: initial_game_def)
qed

text \<open>
  C10. When a move has been applied and the black or the white counter is then zero,
  \<open>check_end_status\<close> answers \<open>True\<close> whatever the total is, and the body of the loop
  leaves the loop with the board and the counters of the move. \<open>check_end_status\<close> is a
  function of the colour and the three counters only.
\<close>

theorem wipeout_ends_game:
  assumes "next_steps (s_turn s) (s_board s) = Some (Inr cands)" and "cands \<noteq> []"
    and "s_input s = str # rest"
    and "parse_coordinate str = Inr (r, c)"
    and "is_valid_move r c (s_turn s) (s_board s) = Some (Inr True)"
    and "take_action r c (s_turn s) (s_board s) (s_b_cnt s) (s_w_cnt s) (s_t_cnt s) (r, c) =
           Some (Inr (board', b', w', t'))"
    and "b' = 0 \<or> w' = 0"
  shows "check_end_status (s_turn s) b' w' t' = (True, [OneLose]) \<and>
         (\<exists>s'. play_game_body s = Some (Break s') \<and>
            s_board s' = board' \<and> s_b_cnt s' = b' \<and> s_w_cnt s' = w' \<and> s_t_cnt s' = t')"
proof -
  have e: "check_end_status (s_turn s) b' w' t' = (True, [OneLose])"
    by (rule check_end_status_wipeout[OF assms(7)])
  from play_game_body_move[OF assms(1-6)] e show ?thesis
    by simp
qed

theorem wipeout_ends_game_witness:
  "\<exists>s. passes 8 (initial_game wipeout_game) = Some (Continue s) \<and>
       s_board s = wipeout_before \<and> s_turn s = BLACK \<and> s_input s = [''c5''] \<and>
       next_steps BLACK wipeout_before =
         Some (Inr [(2, 2), (3, 2), (3, 6), (4, 2), (5, 2), (5, 6), (6, 2)]) \<and>
       parse_coordinate ''c5'' = Inr (4, 2) \<and>
       is_valid_move 4 2 BLACK wipeout_before = Some (Inr True) \<and>
       take_action 4 2 BLACK wipeout_before 7 5 12 (4, 2) = Some (Inr (wipeout_after, 13, 0, 13)) \<and>
       check_end_status BLACK 13 0 13 = (True, [OneLose]) \<and>
       (\<exists>s'. play_game_body s = Some (Break s') \<and> s_board s' = wipeout_after \<and>
          s_b_cnt s' = 13 \<and> s_w_cnt s' = 0 \<and> s_t_cnt s' = 13)"
proof -
  have "(case passes 8 (initial_game wipeout_game) of
           Some (Continue s) \<Rightarrow>
             s_board s = wipeout_before \<and> s_turn s = BLACK \<and> s_input s = [''c5''] \<and>
             s_b_cnt s = 7 \<and> s_w_cnt s = 5 \<and> s_t_cnt s = 12
         | _ \<Rightarrow> False)"
    by code_simp
  then obtain s where p: "passes 8 (initial_game wipeout_game) = Some (Continue s)"
    and s: "s_board s = wipeout_before" "s_turn s = BLACK" "s_input s = [''c5'']"
      "s_b_cnt s = 7" "s_w_cnt s = 5" "s_t_cnt s = 12"
    by (auto split: option.splits outcome.splits)
  have n: "next_steps BLACK wipeout_before =
         Some (Inr [(2, 2), (3, 2), (3, 6), (4, 2), (5, 2), (5, 6), (6, 2)])"
    by code_simp
  have ne: "[(2, 2), (3, 2), (3, 6), (4, 2), (5, 2), (5, 6), (6, 2)] \<noteq> ([] :: Coordinate list)"
    by simp
  have pc: "parse_coordinate ''c5'' = Inr (4, 2)"
    by code_simp
  have v: "is_valid_move 4 2 BLACK wipeout_before = Some (Inr True)"
    by code_simp
  have t: "take_action 4 2 BLACK wipeout_before 7 5 12 (4, 2) =
             Some (Inr (wipeout_after, 13, 0, 13))"
    by code_simp
  have z: "(13::int) = 0 \<or> (0::int) = 0"
    by simp
  from wipeout_ends_game[of s "[(2, 2), (3, 2), (3, 6), (4, 2), (5, 2), (5, 6), (6, 2)]"
      "''c5''" "[]" 4 2 wipeout_after 13 0 13] s n ne pc v t z
  have "check_end_status BLACK 13 0 13 = (True, [OneLose]) \<and>
        (\<exists>s'. play_game_body s = Some (Break s') \<and> s_board s' = wipeout_after \<and>
           s_b_cnt s' = 13 \<and> s_w_cnt s' = 0 \<and> s_t_cnt s' = 13)"
    by simp
  with p s n pc v t show ?thesis
    by blast
qed

text \<open>
  C2. What the loop does when neither colour has a move. After the nineteen moves of
  \<open>stuck_game\<close> Black has 22 pieces and White has 1, 23 squares are occupied, and
  \<open>next_steps\<close> is empty for both colours; from there the loop passes the turn back and
  forth, and \<open>play_game\<close> never returns.
\<close>

theorem play_game_both_stuck:
  "play_game stuck_game = None \<and>
   (\<exists>s. passes 19 (initial_game stuck_game) = Some (Continue s) \<and>
        s_b_cnt s = 22 \<and> s_w_cnt s = 1 \<and> s_t_cnt s = 23 \<and>
        next_steps BLACK (s_board s) = Some (Inr []) \<and>
        next_steps WHITE (s_board s) = Some (Inr []) \<and>
        play_game_body s =
          Some (Continue (s\<lparr>s_turn := switch_user (s_turn s),
                             s_output := s_output s @ [NoValidMove]\<rparr>)))"
proof -
  have "(case passes 19 (initial_game stuck_game) of
           Some (Continue s) \<Rightarrow>
             s_b_cnt s = 22 \<and> s_w_cnt s = 1 \<and> s_t_cnt s = 23 \<and>
             next_steps BLACK (s_board s) = Some (Inr []) \<and>
             next_steps WHITE (s_board s) = Some (Inr [])
         | _ \<Rightarrow> False)"
    by code_simp
  then obtain s where p: "passes 19 (initial_game stuck_game) = Some (Continue s)"
    and c: "s_b_cnt s = 22" "s_w_cnt s = 1" "s_t_cnt s = 23"
    and nb: "next_steps BLACK (s_board s) = Some (Inr [])"
    and nw: "next_steps WHITE (s_board s) = Some (Inr [])"
    by (auto split: option.splits outcome.splits)
  from nb nw have "next_steps (s_turn s) (s_board s) = Some (Inr [])"
    by (cases "s_turn s") simp_all
  note body = play_game_body_pass[OF this]
  have "play_game stuck_game = play_game_loop s"
    unfolding play_game_def by (rule passes_loop[OF p])
  also have "\<dots> = None"
    by (rule play_game_loop_stuck[OF nb nw refl])
  finally show ?thesis
    using p c nb nw body by blast
qed

text \<open>
  C3. What the program prints when a game ends. In \<open>wipeout_game\<close> Black's ninth move
  leaves 13 black pieces and no white piece; \<open>play_game\<close> returns, and after the prompt
  for that move it has printed that one side lost, that the game ended, and the three
  counters, and nothing else.
\<close>

theorem play_game_wipeout_output:
  "\<exists>s pre. play_game wipeout_game = Some (Inr s) \<and>
     s_board s = wipeout_after \<and> s_b_cnt s = 13 \<and> s_w_cnt s = 0 \<and> s_t_cnt s = 13 \<and>
     s_output s = pre @ [EnterMove BLACK, OneLose, GameEnd, Score 13 0 13]"
proof -
  have "(case play_game wipeout_game of
           Some (Inr s) \<Rightarrow>
             s_board s = wipeout_after \<and> s_b_cnt s = 13 \<and> s_w_cnt s = 0 \<and> s_t_cnt s = 13 \<and>
             s_output s = take (length (s_output s) - 4) (s_output s) @
               [EnterMove BLACK, OneLose, GameEnd, Score 13 0 13]
         | _ \<Rightarrow> False)"
    by code_simp
  then show ?thesis
    by (auto split: option.splits sum.splits)
qed

end
